theory Spec2Isabelle
  imports Main
begin

section \<open>Nested mappings and their merge\<close>

text \<open>
  The converter builds its output as nested Python mappings (\<^verbatim>\<open>OrderedDict\<close>, \<^verbatim>\<open>dict\<close>),
  lists and scalars, and the overlay loaded from YAML has the same shape. Keys are
  strings, or integers for the status codes of \<^verbatim>\<open>responses\<close>. A mapping is an association
  list in insertion order; a Python mapping never holds a key twice, which \<open>wf_json\<close>
  states.

  A float is a finite number, an infinity, or a NaN. A finite double is \<open>m \<times> 2\<^sup>e\<close> for two
  integers, and \<open>Finite m e\<close> stands for it (the two zeros are equal under \<^verbatim>\<open>==\<close> and are not
  told apart; one number has several such pairs). A NaN carries the identity of
  its object, because Python takes an element of a list or a mapping as equal to itself
  before it asks \<^verbatim>\<open>==\<close>, and \<^verbatim>\<open>==\<close> on a NaN is false.
\<close>

datatype key = KStr string | KInt int

datatype pyfloat = Finite int int | PosInf | NegInf | NaN nat

datatype json =
    JNull
  | JBool bool
  | JInt int
  | JFloat pyfloat
  | JStr string
  | JList "json list"
  | JDict "(key \<times> json) list"

type_synonym dict = "(key \<times> json) list"

fun wf_json :: "json \<Rightarrow> bool" where
  "wf_json (JList xs) = list_all wf_json xs"
| "wf_json (JDict d) = (distinct (map fst d) \<and> list_all (\<lambda>(k, v). wf_json v) d)"
| "wf_json _ = True"

definition wf_dict :: "dict \<Rightarrow> bool" where
  "wf_dict d = wf_json (JDict d)"

text \<open>\<^verbatim>\<open>isinstance(v, dict)\<close>, and the mapping behind such a value.\<close>

fun is_dict :: "json \<Rightarrow> bool" where
  "is_dict (JDict d) = True"
| "is_dict _ = False"

fun the_dict :: "json \<Rightarrow> dict" where
  "the_dict (JDict d) = d"
| "the_dict _ = []"

text \<open>\<^verbatim>\<open>d[k] = v\<close>: an existing key keeps its position, a new key goes to the end.\<close>

fun dict_set :: "('k \<times> 'v) list \<Rightarrow> 'k \<Rightarrow> 'v \<Rightarrow> ('k \<times> 'v) list" where
  "dict_set [] k v = [(k, v)]"
| "dict_set ((k', v') # d) k v =
     (if k' = k then (k, v) # d else (k', v') # dict_set d k v)"

text \<open>\<^verbatim>\<open>d.update(e)\<close>.\<close>

fun dict_update :: "dict \<Rightarrow> dict \<Rightarrow> dict" where
  "dict_update d [] = d"
| "dict_update d ((k, v) # e) = dict_update (dict_set d k v) e"

text \<open>
  Python's \<^verbatim>\<open>==\<close> on these values. Numbers are compared by value across \<^verbatim>\<open>bool\<close>, \<^verbatim>\<open>int\<close>
  and \<^verbatim>\<open>float\<close> (\<^verbatim>\<open>True == 1\<close>, \<^verbatim>\<open>1 == 1.0\<close>), and a NaN equals nothing. Lists are compared
  element by element, mappings by key set and values (the overlay's mappings are plain
  \<^verbatim>\<open>dict\<close>s, whose comparison ignores order); values of different kinds are unequal.
  \<open>py_eq_in c\<close> is the comparison of two elements of a container when \<open>c\<close> holds, where an
  object is equal to itself, and the operator \<^verbatim>\<open>==\<close> applied to two values otherwise.
\<close>

fun float_eq :: "pyfloat \<Rightarrow> pyfloat \<Rightarrow> bool" where
  "float_eq (Finite m e) (Finite n f) =
     (m * 2 ^ nat (e - min e f) = n * 2 ^ nat (f - min e f))"
| "float_eq PosInf PosInf = True"
| "float_eq NegInf NegInf = True"
| "float_eq _ _ = False"

fun number :: "json \<Rightarrow> pyfloat option" where
  "number (JBool b) = Some (Finite (if b then 1 else 0) 0)"
| "number (JInt i) = Some (Finite i 0)"
| "number (JFloat x) = Some x"
| "number _ = None"

fun py_eq_in :: "bool \<Rightarrow> json \<Rightarrow> json \<Rightarrow> bool" where
  "py_eq_in c (JList xs) (JList ys) = list_all2 (py_eq_in True) xs ys"
| "py_eq_in c (JDict d) (JDict e) =
     (length d = length e \<and>
      list_all (\<lambda>(k, v). case map_of e k of None \<Rightarrow> False | Some w \<Rightarrow> py_eq_in True v w) d)"
| "py_eq_in c (JStr s) (JStr t) = (s = t)"
| "py_eq_in c JNull JNull = True"
| "py_eq_in c v w =
     (case number v of
        None \<Rightarrow> False
      | Some x \<Rightarrow>
          (case number w of
             None \<Rightarrow> False
           | Some y \<Rightarrow> (c \<and> v = w) \<or> float_eq x y))"

definition py_eq :: "json \<Rightarrow> json \<Rightarrow> bool" where
  "py_eq v w = py_eq_in False v w"

fun is_nan :: "json \<Rightarrow> bool" where
  "is_nan (JFloat (NaN i)) = True"
| "is_nan _ = False"

text \<open>No value of the mapping, or of a mapping nested in it, is a NaN.\<close>

fun no_nan_values :: "json \<Rightarrow> bool" where
  "no_nan_values (JDict d) = list_all (\<lambda>(k, v). \<not> is_nan v \<and> no_nan_values v) d"
| "no_nan_values _ = True"

text \<open>\<^verbatim>\<open>str(key)\<close> and \<^verbatim>\<open>'.'.join(...)\<close>.\<close>

fun string_of_nat :: "nat \<Rightarrow> string" where
  "string_of_nat n =
     (if n < 10 then [''0123456789'' ! n]
      else string_of_nat (n div 10) @ [''0123456789'' ! (n mod 10)])"

declare string_of_nat.simps [simp del]

definition string_of_int :: "int \<Rightarrow> string" where
  "string_of_int i = (if i < 0 then CHR ''-'' # string_of_nat (nat (- i)) else string_of_nat (nat i))"

fun str_of_key :: "key \<Rightarrow> string" where
  "str_of_key (KStr s) = s"
| "str_of_key (KInt i) = string_of_int i"

fun join :: "string \<Rightarrow> string list \<Rightarrow> string" where
  "join sep [] = []"
| "join sep [x] = x"
| "join sep (x # y # ys) = x @ sep @ join sep (y # ys)"

subsection \<open>Errors\<close>

text \<open>
  Every exception the modelled code can raise. \<open>ValueError\<close> carries the text that made
  \<^verbatim>\<open>json.loads\<close>, \<^verbatim>\<open>int\<close> or the tuple unpacking fail; \<open>Conflict\<close> is the
  \<^verbatim>\<open>Exception('Conflict at ' + path)\<close> of \<^verbatim>\<open>merge_dicts\<close> and carries the dotted path;
  \<open>WADLParseError\<close> carries message, file, location and cause.
\<close>

datatype error =
    KeyError string
  | ValueError string
  | TypeError
  | AttributeError
  | Conflict string
  | BadWADLError string string
  | WADLParseError string string string error

subsection \<open>\<^verbatim>\<open>merge_dicts\<close>\<close>

text \<open>
  \<^verbatim>\<open>merge_dicts(a, b, path)\<close> updates \<^verbatim>\<open>a\<close> in place while it walks the keys of \<^verbatim>\<open>b\<close>, and
  either returns \<^verbatim>\<open>a\<close> or raises. The model passes the state: the first component of the
  result is the content of the object \<^verbatim>\<open>a\<close> when the call ends, by return or by raise; the
  second is the exception raised, if any. A recursive call works on the object stored
  under \<^verbatim>\<open>a[key]\<close>, so its final content is put back under that key in both outcomes.
\<close>

function merge_dicts :: "dict \<Rightarrow> dict \<Rightarrow> string list \<Rightarrow> dict \<times> error option" where
  "merge_dicts a [] path = (a, None)"
| "merge_dicts a ((k, vb) # b) path =
     (case map_of a k of
        None \<Rightarrow> merge_dicts (dict_set a k vb) b path
      | Some va \<Rightarrow>
          if is_dict va \<and> is_dict vb then
            (case merge_dicts (the_dict va) (the_dict vb) (path @ [str_of_key k]) of
               (da, Some e) \<Rightarrow> (dict_set a k (JDict da), Some e)
             | (da, None) \<Rightarrow> merge_dicts (dict_set a k (JDict da)) b path)
          else if py_eq va vb then merge_dicts a b path
          else (a, Some (Conflict (join ''.'' (path @ [str_of_key k])))))"
  by pat_completeness auto
termination
proof (relation "measure (\<lambda>(a, b, path). size_list (\<lambda>p. size (snd p)) b)", goal_cases)
  case (3 a k vb b path va)
  have le: "size_list (\<lambda>p. size (snd p)) d \<le> size_list (size_prod (\<lambda>x. 0) size) d" for d :: dict
    by (induction d) auto
  from 3 obtain db where "vb = JDict db" by (cases vb) auto
  with le [of db] show ?case by simp
qed auto

text \<open>
  To speak of a value deep inside a document: \<open>lookup_path v ks\<close> follows the keys \<open>ks\<close>
  through nested mappings. Two documents conflict at a key path when both have a value
  there, the two are not both mappings, and Python finds them unequal.
\<close>

fun lookup_path :: "json \<Rightarrow> key list \<Rightarrow> json option" where
  "lookup_path v [] = Some v"
| "lookup_path v (k # ks) =
     (if is_dict v then
        (case map_of (the_dict v) k of None \<Rightarrow> None | Some w \<Rightarrow> lookup_path w ks)
      else None)"

definition conflict_at :: "dict \<Rightarrow> dict \<Rightarrow> key list \<Rightarrow> bool" where
  "conflict_at a b ks =
     (ks \<noteq> [] \<and>
      (case lookup_path (JDict a) ks of
         None \<Rightarrow> False
       | Some va \<Rightarrow>
           (case lookup_path (JDict b) ks of
              None \<Rightarrow> False
            | Some vb \<Rightarrow> \<not> (is_dict va \<and> is_dict vb) \<and> \<not> py_eq va vb)))"

text \<open>
  The key paths of a mapping, in the order in which \<^verbatim>\<open>merge_dicts\<close> walks them, and those it has
  walked through when it meets a conflict at the key path \<open>cs\<close>: the keys before the first
  key of \<open>cs\<close> with everything below them, then, below that key, the key paths walked
  before the rest of \<open>cs\<close>.
\<close>

fun all_paths :: "json \<Rightarrow> key list list" where
  "all_paths (JDict d) = concat (map (\<lambda>(k, v). [k] # map ((#) k) (all_paths v)) d)"
| "all_paths _ = []"

fun walked_before :: "dict \<Rightarrow> key list \<Rightarrow> key list list" where
  "walked_before b [] = []"
| "walked_before b (c # cs) =
     concat (map (\<lambda>(k, v). [k] # map ((#) k) (all_paths v)) (takeWhile (\<lambda>(k, v). k \<noteq> c) b)) @
     (case map_of b c of
        None \<Rightarrow> []
      | Some v \<Rightarrow> map ((#) c) (walked_before (the_dict v) cs))"

text \<open>
  What the generated document holds at a key path once the overlay's value \<open>vb\<close> at that path
  has been merged in: a mapping for a mapping (merged further), and for any other value
  the overlay's own object, or the value that was there and that \<^verbatim>\<open>==\<close> found equal.
  \<open>holds_at w vb ks\<close>: below \<open>vb\<close> there is a value at \<open>ks\<close>, and \<open>w\<close> holds it there.
\<close>

definition merged_in :: "json \<Rightarrow> json \<Rightarrow> bool" where
  "merged_in vb w = (if is_dict vb then is_dict w else w = vb \<or> py_eq w vb)"

definition holds_at :: "json \<Rightarrow> json \<Rightarrow> key list \<Rightarrow> bool" where
  "holds_at w vb ks =
     (case lookup_path vb ks of
        None \<Rightarrow> False
      | Some x \<Rightarrow>
          (case lookup_path w ks of
             None \<Rightarrow> False
           | Some y \<Rightarrow> merged_in x y))"

definition written_in :: "dict \<Rightarrow> dict \<Rightarrow> key list \<Rightarrow> bool" where
  "written_in a b ks = holds_at (JDict a) (JDict b) ks"

subsection \<open>\<^verbatim>\<open>merge_dicts\<close> on the caller's object\<close>

text \<open>
  Python hands a mapping to a function by reference: \<^verbatim>\<open>merge_dicts\<close> writes into the object
  \<^verbatim>\<open>a\<close> of its caller, its recursive call writes into the object found under \<^verbatim>\<open>a[key]\<close>, and
  \<^verbatim>\<open>return a\<close> gives the caller's reference back. To state that, the mappings of the
  generated document live in a store, from the address of a mapping object to its content,
  and a slot of such an object holds a value or the address of a mapping object; two slots
  may hold the same address. The overlay \<^verbatim>\<open>b\<close> is only read, so it is passed as the value it
  has when the call starts, and \<^verbatim>\<open>a[key] = b[key]\<close> stores that value.

  \<open>merge_dicts_at s a b path\<close> is \<^verbatim>\<open>merge_dicts(a, b, path)\<close> run in the store \<open>s\<close> on the
  object at address \<open>a\<close>. It gives the store when the call ends, and the reference returned
  (\<open>Inr\<close>) or the exception raised (\<open>Inl\<close>). A mapping held under \<^verbatim>\<open>a[key]\<close> by reference is
  merged in place by the recursive call and nothing is stored under \<^verbatim>\<open>key\<close>; a mapping is
  never equal to a value that is not one. A mapping held by value is merged as
  \<open>merge_dicts\<close> does it.
\<close>

type_synonym addr = nat

datatype slot = Val json | Ref addr

type_synonym store = "addr \<Rightarrow> (key \<times> slot) list"

function merge_dicts_at :: "store \<Rightarrow> addr \<Rightarrow> dict \<Rightarrow> string list \<Rightarrow> store \<times> (error + addr)" where
  "merge_dicts_at s a [] path = (s, Inr a)"
| "merge_dicts_at s a ((k, vb) # b) path =
     (case map_of (s a) k of
        None \<Rightarrow> merge_dicts_at (s(a := dict_set (s a) k (Val vb))) a b path
      | Some (Ref r) \<Rightarrow>
          if is_dict vb then
            (case merge_dicts_at s r (the_dict vb) (path @ [str_of_key k]) of
               (s', Inl e) \<Rightarrow> (s', Inl e)
             | (s', Inr x) \<Rightarrow> merge_dicts_at s' a b path)
          else (s, Inl (Conflict (join ''.'' (path @ [str_of_key k]))))
      | Some (Val va) \<Rightarrow>
          if is_dict va \<and> is_dict vb then
            (case merge_dicts (the_dict va) (the_dict vb) (path @ [str_of_key k]) of
               (da, Some e) \<Rightarrow> (s(a := dict_set (s a) k (Val (JDict da))), Inl e)
             | (da, None) \<Rightarrow> merge_dicts_at (s(a := dict_set (s a) k (Val (JDict da)))) a b path)
          else if py_eq va vb then merge_dicts_at s a b path
          else (s, Inl (Conflict (join ''.'' (path @ [str_of_key k])))))"
  by pat_completeness auto
termination
proof -
  have le: "size_list (\<lambda>p. size (snd p)) d \<le> size_list (size_prod (\<lambda>x. 0) size) d" for d :: dict
    by (induction d) auto
  have less: "size_list (\<lambda>p. size (snd p)) (the_dict vb) < Suc (size vb + n)" if "is_dict vb" for vb n
  proof -
    from that obtain db where "vb = JDict db" by (cases vb) auto
    with le [of db] show ?thesis by simp
  qed
  show ?thesis
    by (relation "measure (\<lambda>(s, a, b, path). size_list (\<lambda>p. size (snd p)) b)") (auto simp: less)
qed

text \<open>
  What is found in the store at a key path from a slot, through objects held by reference
  and mappings held by value.
\<close>

fun store_lookup :: "store \<Rightarrow> slot \<Rightarrow> key list \<Rightarrow> slot option" where
  "store_lookup s sl [] = Some sl"
| "store_lookup s (Ref r) (k # ks) =
     (case map_of (s r) k of None \<Rightarrow> None | Some sl \<Rightarrow> store_lookup s sl ks)"
| "store_lookup s (Val v) (k # ks) = map_option Val (lookup_path v (k # ks))"

text \<open>
  A slot holds the overlay's value \<open>vb\<close>, merged in; and a slot conflicts with it, as
  \<^verbatim>\<open>merge_dicts\<close> tests it.
\<close>

fun slot_holds :: "json \<Rightarrow> slot \<Rightarrow> bool" where
  "slot_holds vb (Ref r) = is_dict vb"
| "slot_holds vb (Val w) = merged_in vb w"

fun slot_conflicts :: "json \<Rightarrow> slot \<Rightarrow> bool" where
  "slot_conflicts vb (Ref r) = (\<not> is_dict vb)"
| "slot_conflicts vb (Val va) = (\<not> (is_dict va \<and> is_dict vb) \<and> \<not> py_eq va vb)"

definition slot_at :: "(json \<Rightarrow> slot \<Rightarrow> bool) \<Rightarrow> store \<Rightarrow> slot \<Rightarrow> json \<Rightarrow> key list \<Rightarrow> bool" where
  "slot_at P s sl vb ks =
     (case lookup_path vb ks of
        None \<Rightarrow> False
      | Some x \<Rightarrow>
          (case store_lookup s sl ks of
             None \<Rightarrow> False
           | Some sl' \<Rightarrow> P x sl'))"

text \<open>
  In the store \<open>s\<close>, the object at \<open>a\<close> holds what the overlay \<open>b\<close> has at the key path \<open>ks\<close>;
  and the object at \<open>a\<close> and the overlay conflict at the key path \<open>cs\<close>.
\<close>

definition written :: "store \<Rightarrow> addr \<Rightarrow> dict \<Rightarrow> key list \<Rightarrow> bool" where
  "written s a b ks = slot_at slot_holds s (Ref a) (JDict b) ks"

definition conflict_in :: "store \<Rightarrow> addr \<Rightarrow> dict \<Rightarrow> key list \<Rightarrow> bool" where
  "conflict_in s a b cs = (cs \<noteq> [] \<and> slot_at slot_conflicts s (Ref a) (JDict b) cs)"

text \<open>
  A document held by value, put into the store as one object.
\<close>

definition by_value :: "dict \<Rightarrow> (key \<times> slot) list" where
  "by_value d = map (\<lambda>(k, v). (k, Val v)) d"

subsection \<open>Orders used in the proofs\<close>

text \<open>
  A call of \<^verbatim>\<open>merge_dicts\<close> only adds keys to mappings: a document \<open>v'\<close> extends \<open>v\<close> when every
  key path of \<open>v\<close> is one of \<open>v'\<close>, with the same value there unless it is a mapping; and a
  store extends another when every slot of every object is still there, holding the same
  reference or an extended value.
\<close>

definition grows :: "json \<Rightarrow> json \<Rightarrow> bool" where
  "grows v v' = (if is_dict v then is_dict v' else v' = v)"

definition json_le :: "json \<Rightarrow> json \<Rightarrow> bool" where
  "json_le v v' =
     (\<forall>ks w. lookup_path v ks = Some w \<longrightarrow> (\<exists>w'. lookup_path v' ks = Some w' \<and> grows w w'))"

fun slot_le :: "slot \<Rightarrow> slot \<Rightarrow> bool" where
  "slot_le (Ref r) sl = (sl = Ref r)"
| "slot_le (Val v) sl = (case sl of Ref r \<Rightarrow> False | Val v' \<Rightarrow> json_le v v')"

definition store_le :: "store \<Rightarrow> store \<Rightarrow> bool" where
  "store_le s s' =
     (\<forall>r k sl. map_of (s r) k = Some sl \<longrightarrow> (\<exists>sl'. map_of (s' r) k = Some sl' \<and> slot_le sl sl'))"

section \<open>The converter\<close>

subsection \<open>Options, the JSON library and the source document\<close>

text \<open>The flags \<^verbatim>\<open>SwaggerConverter.__init__\<close> reads from its options.\<close>

record options =
  autofix :: bool
  strict :: bool
  nodoc :: bool

text \<open>
  The functions of Python that the converter calls on a text are parameters of the model:
  \<open>loads\<close> is \<^verbatim>\<open>json.loads\<close> on a string, with \<open>None\<close> where it raises \<^verbatim>\<open>ValueError\<close>; \<open>dumps\<close> is
  \<^verbatim>\<open>json.dumps(data, indent=4, separators=(',', ': '))\<close>; \<open>py_split\<close> is the method \<^verbatim>\<open>split()\<close>
  without arguments; \<open>py_int\<close> is \<^verbatim>\<open>int\<close> on a string, with \<open>None\<close> where it raises
  \<^verbatim>\<open>ValueError\<close>. What \<^verbatim>\<open>split()\<close> takes for whitespace and \<^verbatim>\<open>int\<close> for a digit depends on the
  type of the text (\<^verbatim>\<open>str\<close> or \<^verbatim>\<open>unicode\<close>) and on Unicode's tables; the model fixes neither,
  and every statement below holds for whatever the two functions are. The model itself
  only compares characters with ASCII characters (the newline, \<^verbatim>\<open>{\<close>, \<^verbatim>\<open>[\<close>, \<^verbatim>\<open>:\<close>, \<^verbatim>\<open>/\<close>).
\<close>

record python =
  loads :: "string \<Rightarrow> json option"
  dumps :: "json \<Rightarrow> string"
  py_split :: "string \<Rightarrow> string list"
  py_int :: "string \<Rightarrow> int option"

text \<open>
  The source document is read through \<^verbatim>\<open>wadllib\<close> and the helpers \<^verbatim>\<open>WADL\<close> and \<^verbatim>\<open>DocHelper\<close>
  of \<^verbatim>\<open>wadltools.wadl\<close>. The records hold what those calls give the converter, one field for
  each value it reads:
  \<^item> of a parameter: \<^verbatim>\<open>name\<close>, \<^verbatim>\<open>is_required\<close>, \<^verbatim>\<open>style\<close>, \<^verbatim>\<open>tag.get('type')\<close>, and its
    documentation rendered by \<^verbatim>\<open>textwrap.dedent(DocHelper.docbook_to_markdown(...))\<close>, or
    \<open>None\<close> when \<^verbatim>\<open>DocHelper.doc_tag\<close> or its text is \<^verbatim>\<open>None\<close>;
  \<^item> of a response: \<^verbatim>\<open>tag.attrib['status']\<close> (\<open>None\<close> stands for the \<^verbatim>\<open>KeyError\<close>),
    \<^verbatim>\<open>DocHelper.doc_tag(response).text\<close> (\<open>None\<close> when the tag or its text is \<^verbatim>\<open>None\<close>, which
    both end in an \<^verbatim>\<open>AttributeError\<close>), the media type of
    \<^verbatim>\<open>get_representation_definition('application/json')\<close>, and the \<^verbatim>\<open>.text\<close> of every
    \<^verbatim>\<open>programlisting\<close> element with \<^verbatim>\<open>language="javascript"\<close>, in document order;
  \<^item> of a method: \<^verbatim>\<open>name\<close>, the \<^verbatim>\<open>rax:id\<close> attribute, the title of its documentation tag,
    \<^verbatim>\<open>DocHelper.short_desc_as_markdown\<close>, the parameter lists of the request's
    representations (\<open>None\<close> when \<^verbatim>\<open>request.tag\<close> is \<^verbatim>\<open>None\<close>) and the response (\<open>None\<close>
    when \<^verbatim>\<open>response.tag\<close> is \<^verbatim>\<open>None\<close>);
  \<^item> of a resource: the \<^verbatim>\<open>path\<close> attribute, \<^verbatim>\<open>resource.parameters('application/json')\<close>
    (\<open>None\<close> when it raises \<^verbatim>\<open>UnsupportedMediaTypeError\<close> or \<^verbatim>\<open>AttributeError\<close>), the
    \<^verbatim>\<open>param\<close> children of its tag, and \<^verbatim>\<open>method_iter\<close>.
\<close>

record wadl_param =
  param_name :: string
  is_required :: bool
  style :: "string option"
  type_attr :: "string option"
  doc_markdown :: "string option"

record wadl_response =
  status_attr :: "string option"
  doc_text :: "string option"
  json_media_type :: "string option"
  code_samples :: "string option list"

datatype doc_title = NoDocTag | NoTitle | Title string

record wadl_method =
  method_name :: string
  rax_id :: "string option"
  title_attr :: doc_title
  short_desc :: "string option"
  request :: "wadl_param list list option"
  response :: "wadl_response option"

record wadl_resource =
  resource_path :: string
  json_parameters :: "wadl_param list option"
  tag_parameters :: "wadl_param list"
  method_iter :: "wadl_method list"

record wadl_application =
  resource_base :: "string option"
  resources :: "wadl_resource list"

subsection \<open>Strings\<close>

text \<open>\<^verbatim>\<open>s.split(c)\<close> with a separator.\<close>

fun split_on :: "char \<Rightarrow> string \<Rightarrow> string list" where
  "split_on c [] = [[]]"
| "split_on c (x # xs) =
     (if x = c then [] # split_on c xs
      else (case split_on c xs of [] \<Rightarrow> [[x]] | p # ps \<Rightarrow> (x # p) # ps))"

subsection \<open>\<^verbatim>\<open>fix_json\<close> and \<^verbatim>\<open>build_code_sample\<close>\<close>

text \<open>
  \<^verbatim>\<open>re.match(r'.*^([\{\[].*)\Z', json_sample, re.MULTILINE | re.DOTALL)\<close>: the leading
  \<^verbatim>\<open>.*\<close> is greedy and crosses newlines, \<^verbatim>\<open>^\<close> holds at the start of the text and after every
  newline, so group 1 starts at the last line start that is followed by \<^verbatim>\<open>{\<close> or \<^verbatim>\<open>[\<close> and
  runs to the end. \<open>header_match bol s\<close> is that group for the text \<open>s\<close>, \<open>bol\<close> telling
  whether \<open>s\<close> starts at a line start.
\<close>

fun header_match :: "bool \<Rightarrow> string \<Rightarrow> string option" where
  "header_match bol [] = None"
| "header_match bol (c # cs) =
     (case header_match (c = CHR 0x0A) cs of
        Some g \<Rightarrow> Some g
      | None \<Rightarrow> if bol \<and> (c = CHR ''{'' \<or> c = CHR ''['') then Some (c # cs) else None)"

definition fix_json :: "options \<Rightarrow> python \<Rightarrow> string \<Rightarrow> error + string" where
  "fix_json opts py json_sample =
     (case loads py json_sample of
        Some data \<Rightarrow> Inr json_sample
      | None \<Rightarrow>
          if autofix opts then
            (case header_match True json_sample of
               Some g \<Rightarrow> (case loads py g of Some data \<Rightarrow> Inr g | None \<Rightarrow> Inl (ValueError g))
             | None \<Rightarrow> Inr json_sample)
          else Inl (ValueError json_sample))"

text \<open>The class \<^verbatim>\<open>folded\<close> only marks a string for the YAML writer; it compares as the string.\<close>

definition build_code_sample :: "python \<Rightarrow> string \<Rightarrow> dict" where
  "build_code_sample py wadl_code_sample =
     (case loads py wadl_code_sample of
        Some data \<Rightarrow> [(KStr ''application/json'', JStr (dumps py data))]
      | None \<Rightarrow> [])"

subsection \<open>\<^verbatim>\<open>xsd_to_json_type\<close> and \<^verbatim>\<open>style_to_in\<close>\<close>

definition typemap :: "(string \<times> (string \<times> json) list) list" where
  "typemap =
     [(''xsd'',
        [(''boolean'', JStr ''boolean''),
         (''int'', JStr ''integer''),
         (''integer'', JStr ''integer''),
         (''decimal'', JStr ''number''),
         (''string'', JStr ''string''),
         (''anyURI'', JDict [(KStr ''type'', JStr ''string''), (KStr ''format'', JStr ''uri'')]),
         (''dateTime'', JDict [(KStr ''type'', JStr ''string''), (KStr ''format'', JStr ''date-time'')]),
         (''date'', JStr ''string''),
         (''time'', JStr ''string'')]),
      (''csapi'',
        [(''UUID'', JDict [(KStr ''type'', JStr ''string'')])])]"

text \<open>
  The result is \<open>Inr None\<close> for Python's \<^verbatim>\<open>None\<close>. \<^verbatim>\<open>namespace, xsd_type = full_type.split(":")\<close>
  unpacks into two names and raises \<^verbatim>\<open>ValueError\<close> when the split gives more than two parts.
\<close>

definition xsd_to_json_type :: "string option \<Rightarrow> error + json option" where
  "xsd_to_json_type full_type =
     (case full_type of
        None \<Rightarrow> Inr None
      | Some ft \<Rightarrow>
          if CHR '':'' \<in> set ft then
            (case split_on CHR '':'' ft of
               [namespace, xsd_type] \<Rightarrow>
                 (case map_of typemap (if namespace \<in> set [[], ''xs''] then ''xsd'' else namespace) of
                    None \<Rightarrow> Inr None
                  | Some types \<Rightarrow> Inr (map_of types xsd_type))
             | _ \<Rightarrow> Inl (ValueError ft))
          else
            (case map_of typemap ''xsd'' of
               None \<Rightarrow> Inr None
             | Some types \<Rightarrow> Inr (map_of types ft)))"

definition style_to_in :: "string option \<Rightarrow> error + string" where
  "style_to_in s =
     (case s of
        None \<Rightarrow> Inl (KeyError ''None'')
      | Some st \<Rightarrow>
          (case map_of [(''matrix'', ''unknown''), (''query'', ''query''), (''header'', ''header''),
                        (''template'', ''path''), (''plain'', ''body'')] st of
             None \<Rightarrow> Inl (KeyError st)
           | Some loc \<Rightarrow> Inr loc))"

subsection \<open>\<^verbatim>\<open>build_summary\<close>, \<^verbatim>\<open>build_param\<close>, \<^verbatim>\<open>build_response\<close>\<close>

definition build_summary :: "wadl_method \<Rightarrow> error + string" where
  "build_summary m =
     (case title_attr m of
        NoDocTag \<Rightarrow> Inl AttributeError
      | NoTitle \<Rightarrow> Inl (KeyError ''title'')
      | Title t \<Rightarrow> Inr t)"

text \<open>\<open>Inr None\<close> is the \<^verbatim>\<open>return None\<close> of a dropped body parameter.\<close>

definition build_param :: "options \<Rightarrow> wadl_param \<Rightarrow> error + dict option" where
  "build_param opts wadl_param =
     (case style_to_in (style wadl_param) of
        Inl e \<Rightarrow> Inl e
      | Inr loc \<Rightarrow>
          (let param0 = [(KStr ''name'', JStr (param_name wadl_param)),
                         (KStr ''required'', JBool (is_required wadl_param)),
                         (KStr ''in'', JStr loc)];
               wadl_type = (case type_attr wadl_param of None \<Rightarrow> ''string'' | Some t \<Rightarrow> t)
           in case xsd_to_json_type (Some wadl_type) of
                Inl e \<Rightarrow> Inl e
              | Inr mapped \<Rightarrow>
                  (let json_type = (case mapped of
                                      Some t \<Rightarrow> t
                                    | None \<Rightarrow> if autofix opts then JStr ''string'' else JStr wadl_type);
                       param1 = (if is_dict json_type then dict_update param0 (the_dict json_type)
                                 else dict_set param0 (KStr ''type'') json_type)
                   in if autofix opts \<and> map_of param1 (KStr ''in'') = Some (JStr ''body'') then Inr None
                      else
                        (let param2 = (if autofix opts
                                          \<and> map_of param1 (KStr ''in'') = Some (JStr ''path'')
                                          \<and> map_of param1 (KStr ''required'') \<noteq> Some (JBool True)
                                       then dict_set param1 (KStr ''required'') (JBool True)
                                       else param1);
                             param3 = (if \<not> nodoc opts then
                                         (case doc_markdown wadl_param of
                                            Some description \<Rightarrow>
                                              dict_set param2 (KStr ''description'') (JStr description)
                                          | None \<Rightarrow> param2)
                                       else param2)
                         in Inr (Some param3)))))"

text \<open>
  \<^verbatim>\<open>build_response\<close> is called once the status attribute has been read, so its own lookup of
  the attribute finds it; the description falls back on the whole attribute.
\<close>

definition build_response :: "python \<Rightarrow> wadl_response \<Rightarrow> error + dict" where
  "build_response py wadl_response =
     (case status_attr wadl_response of
        None \<Rightarrow> Inl (KeyError ''status'')
      | Some status \<Rightarrow>
          (let description = (case doc_text wadl_response of
                                Some text \<Rightarrow> join '' '' (py_split py text)
                              | None \<Rightarrow> status @ '' response'')
           in Inr [(KStr ''description'', JStr description)]))"

subsection \<open>\<^verbatim>\<open>convert\<close>\<close>

text \<open>
  The loops of \<^verbatim>\<open>convert\<close>, innermost first. Each returns the mapping it fills, or the
  exception that leaves \<^verbatim>\<open>convert\<close>. Logging is left out.

  \<^verbatim>\<open>target["parameters"].append(swagger_param)\<close>, after creating the list when the key is
  missing:
\<close>

definition append_parameter :: "dict \<Rightarrow> dict \<Rightarrow> dict" where
  "append_parameter target swagger_param =
     (case map_of target (KStr ''parameters'') of
        Some (JList ps) \<Rightarrow> dict_set target (KStr ''parameters'') (JList (ps @ [JDict swagger_param]))
      | _ \<Rightarrow> dict_set target (KStr ''parameters'') (JList [JDict swagger_param]))"

fun add_params :: "options \<Rightarrow> wadl_param list \<Rightarrow> dict \<Rightarrow> error + dict" where
  "add_params opts [] target = Inr target"
| "add_params opts (param # params) target =
     (case build_param opts param of
        Inl e \<Rightarrow> Inl e
      | Inr None \<Rightarrow> add_params opts params target
      | Inr (Some swagger_param) \<Rightarrow> add_params opts params (append_parameter target swagger_param))"

fun add_request_params :: "options \<Rightarrow> wadl_param list list \<Rightarrow> dict \<Rightarrow> error + dict" where
  "add_request_params opts [] target = Inr target"
| "add_request_params opts (representation # representations) target =
     (case add_params opts representation target of
        Inl e \<Rightarrow> Inl e
      | Inr target' \<Rightarrow> add_request_params opts representations target')"

text \<open>
  The body of \<^verbatim>\<open>for status in statuses\<close>. \<^verbatim>\<open>int(status)\<close> is outside the \<^verbatim>\<open>try\<close>, so its
  \<^verbatim>\<open>ValueError\<close> leaves \<^verbatim>\<open>convert\<close>; so does the \<^verbatim>\<open>TypeError\<close> of \<^verbatim>\<open>json.loads(None)\<close> for a
  listing without text. \<^verbatim>\<open>code_sample\<close> is assigned the raw text before \<^verbatim>\<open>fix_json\<close> is
  called and keeps it when \<^verbatim>\<open>fix_json\<close> raises and \<^verbatim>\<open>strict\<close> is off.
\<close>

definition convert_status ::
  "options \<Rightarrow> python \<Rightarrow> string \<Rightarrow> string \<Rightarrow> wadl_response \<Rightarrow> dict \<Rightarrow> string \<Rightarrow> error + dict" where
  "convert_status opts py wadl_file summary wadl_response responses status =
     (case py_int py status of
        None \<Rightarrow> Inl (ValueError status)
      | Some code \<Rightarrow>
          (case build_response py wadl_response of
             Inl e \<Rightarrow> Inl e
           | Inr resp \<Rightarrow>
               (let responses1 = dict_set responses (KInt code) (JDict resp);
                    attach = (\<lambda>code_sample.
                      if code_sample \<noteq> [] then
                        Inr (dict_set responses1 (KInt code)
                               (JDict (dict_set resp (KStr ''examples'')
                                         (JDict (build_code_sample py code_sample)))))
                      else Inr responses1)
                in if code_samples wadl_response = [] then Inr responses1
                   else
                     (case last (code_samples wadl_response) of
                        None \<Rightarrow> Inl TypeError
                      | Some text \<Rightarrow>
                          (case fix_json opts py text of
                             Inr code_sample \<Rightarrow> attach code_sample
                           | Inl e \<Rightarrow>
                               if strict opts
                               then Inl (WADLParseError ''Unparsable code sample'' wadl_file summary e)
                               else attach text)))))"

fun convert_statuses ::
  "options \<Rightarrow> python \<Rightarrow> string \<Rightarrow> string \<Rightarrow> wadl_response \<Rightarrow> dict \<Rightarrow> string list \<Rightarrow> error + dict" where
  "convert_statuses opts py wadl_file summary wadl_response responses [] = Inr responses"
| "convert_statuses opts py wadl_file summary wadl_response responses (status # statuses) =
     (case convert_status opts py wadl_file summary wadl_response responses status of
        Inl e \<Rightarrow> Inl e
      | Inr responses' \<Rightarrow>
          convert_statuses opts py wadl_file summary wadl_response responses' statuses)"

text \<open>
  The body of \<^verbatim>\<open>for method in resource.method_iter\<close>. The operation is stored under its verb
  when the body starts and filled afterwards; the model stores it when it is complete, which
  gives the same mapping.
\<close>

definition convert_method ::
  "options \<Rightarrow> python \<Rightarrow> string \<Rightarrow> dict \<Rightarrow> wadl_method \<Rightarrow> error + dict" where
  "convert_method opts py wadl_file swagger_resource method =
     (let verb = (if autofix opts \<and> method_name method = ''copy'' then ''put'' else method_name method);
          m0 = (case rax_id method of
                  Some i \<Rightarrow> [(KStr ''operationId'', JStr i)]
                | None \<Rightarrow> [])
      in case build_summary method of
           Inl e \<Rightarrow> Inl e
         | Inr summary \<Rightarrow>
             (let m1 = dict_set m0 (KStr ''summary'') (JStr summary);
                  m2 = (case short_desc method of
                          Some description \<Rightarrow> dict_set m1 (KStr ''description'') (JStr description)
                        | None \<Rightarrow> m1);
                  m3 = dict_set m2 (KStr ''produces'') (JList []);
                  m4 = dict_set m3 (KStr ''responses'') (JDict [])
              in case (case request method of
                         None \<Rightarrow> Inr m4
                       | Some representations \<Rightarrow> add_request_params opts representations m4) of
                   Inl e \<Rightarrow> Inl e
                 | Inr m5 \<Rightarrow>
                     (case response method of
                        None \<Rightarrow> Inr (dict_set swagger_resource (KStr verb) (JDict m5))
                      | Some wadl_response \<Rightarrow>
                          (let m6 = (case json_media_type wadl_response of
                                       Some media_type \<Rightarrow>
                                         dict_set m5 (KStr ''produces'') (JList [JStr media_type])
                                     | None \<Rightarrow> m5)
                           in case status_attr wadl_response of
                                None \<Rightarrow> Inl (BadWADLError ''Response has no status'' wadl_file)
                              | Some status \<Rightarrow>
                                  (case convert_statuses opts py wadl_file summary wadl_response []
                                          (py_split py status) of
                                     Inl e \<Rightarrow> Inl e
                                   | Inr responses \<Rightarrow>
                                       Inr (dict_set swagger_resource (KStr verb)
                                              (JDict (dict_set m6 (KStr ''responses'')
                                                        (JDict responses)))))))))"

fun convert_methods ::
  "options \<Rightarrow> python \<Rightarrow> string \<Rightarrow> dict \<Rightarrow> wadl_method list \<Rightarrow> error + dict" where
  "convert_methods opts py wadl_file swagger_resource [] = Inr swagger_resource"
| "convert_methods opts py wadl_file swagger_resource (method # methods) =
     (case convert_method opts py wadl_file swagger_resource method of
        Inl e \<Rightarrow> Inl e
      | Inr swagger_resource' \<Rightarrow> convert_methods opts py wadl_file swagger_resource' methods)"

text \<open>The body of \<^verbatim>\<open>for resource_element in wadl.resources\<close>.\<close>

definition convert_resource ::
  "options \<Rightarrow> python \<Rightarrow> string \<Rightarrow> dict \<Rightarrow> wadl_resource \<Rightarrow> error + dict" where
  "convert_resource opts py wadl_file paths resource =
     (let path = (if autofix opts \<and> \<not> (case resource_path resource of c # cs \<Rightarrow> c = CHR ''/'' | [] \<Rightarrow> False)
                  then CHR ''/'' # resource_path resource else resource_path resource);
          params = (case json_parameters resource of None \<Rightarrow> [] | Some ps \<Rightarrow> ps)
                   @ tag_parameters resource
      in case add_params opts params [] of
           Inl e \<Rightarrow> Inl e
         | Inr swagger_resource \<Rightarrow>
             (case convert_methods opts py wadl_file swagger_resource (method_iter resource) of
                Inl e \<Rightarrow> Inl e
              | Inr swagger_resource' \<Rightarrow> Inr (dict_set paths (KStr path) (JDict swagger_resource'))))"

fun convert_resources ::
  "options \<Rightarrow> python \<Rightarrow> string \<Rightarrow> dict \<Rightarrow> wadl_resource list \<Rightarrow> error + dict" where
  "convert_resources opts py wadl_file paths [] = Inr paths"
| "convert_resources opts py wadl_file paths (resource # rest) =
     (case convert_resource opts py wadl_file paths resource of
        Inl e \<Rightarrow> Inl e
      | Inr paths' \<Rightarrow> convert_resources opts py wadl_file paths' rest)"

text \<open>
  Lines 64 to 68: \<^verbatim>\<open>info\<close> from the defaults, or title and version. Lines 69 to 74: one
  \<^verbatim>\<open>try\<close> holds both assignments, and its handler sets both keys.
\<close>

definition seed_info :: "string \<Rightarrow> dict \<Rightarrow> dict \<Rightarrow> dict" where
  "seed_info title defaults swagger =
     (case map_of defaults (KStr ''info'') of
        Some info \<Rightarrow> dict_set swagger (KStr ''info'') info
      | None \<Rightarrow>
          dict_set swagger (KStr ''info'')
            (JDict [(KStr ''title'', JStr title), (KStr ''version'', JStr ''Unknown'')]))"

definition json_media_types :: "dict \<Rightarrow> dict" where
  "json_media_types swagger =
     dict_set (dict_set swagger (KStr ''consumes'') (JList [JStr ''application/json'']))
       (KStr ''produces'') (JList [JStr ''application/json''])"

definition seed_media_types :: "dict \<Rightarrow> dict \<Rightarrow> dict" where
  "seed_media_types defaults swagger =
     (case map_of defaults (KStr ''consumes'') of
        None \<Rightarrow> json_media_types swagger
      | Some consumes \<Rightarrow>
          (let swagger1 = dict_set swagger (KStr ''consumes'') consumes
           in case map_of defaults (KStr ''produces'') of
                None \<Rightarrow> json_media_types swagger1
              | Some produces \<Rightarrow> dict_set swagger1 (KStr ''produces'') produces))"

text \<open>
  \<^verbatim>\<open>convert\<close>, with the overlay that \<^verbatim>\<open>default_swagger_dict\<close> loads (empty when there is no
  file) and the application that \<^verbatim>\<open>WADL.application_for\<close> returns as arguments. The result is
  the document returned, or the exception raised. The final handler wraps \<^verbatim>\<open>wadllib\<close>'s
  \<^verbatim>\<open>WADLError\<close> only; the built-in exceptions, \<^verbatim>\<open>WADLParseError\<close> and the conflict of
  \<^verbatim>\<open>merge_dicts\<close> pass through it as they are.
\<close>

definition convert ::
  "options \<Rightarrow> python \<Rightarrow> string \<Rightarrow> string \<Rightarrow> dict \<Rightarrow> wadl_application \<Rightarrow> error + dict" where
  "convert opts py title wadl_file defaults wadl0 =
     (let wadl = (if autofix opts \<and> resource_base wadl0 = None
                  then wadl0\<lparr>resource_base := Some ''http://localhost''\<rparr> else wadl0);
          swagger0 = [(KStr ''swagger'', JStr ''2.0''), (KStr ''info'', JDict [])];
          swagger1 = seed_info title defaults swagger0;
          swagger2 = seed_media_types defaults swagger1
      in case convert_resources opts py wadl_file [] (resources wadl) of
           Inl e \<Rightarrow> Inl e
         | Inr paths \<Rightarrow>
             (case merge_dicts (dict_set swagger2 (KStr ''paths'') (JDict paths)) defaults [] of
                (swagger, None) \<Rightarrow> Inr swagger
              | (swagger, Some e) \<Rightarrow> Inl e))"

subsection \<open>Notions used in the statements\<close>

text \<open>
  The values of the type table, and the fact that a mapping of responses holds, under a
  status code, a response with a given description.
\<close>

definition type_fragments :: "json list" where
  "type_fragments = concat (map (\<lambda>(ns, types). map snd types) typemap)"

definition has_description :: "dict \<Rightarrow> int \<Rightarrow> string \<Rightarrow> bool" where
  "has_description responses code d =
     (case map_of responses (KInt code) of
        Some (JDict resp) \<Rightarrow> map_of resp (KStr ''description'') = Some (JStr d)
      | _ \<Rightarrow> False)"

subsection \<open>Inputs for the examples\<close>

text \<open>
  The examples need Python's functions and a source document. Their texts are made of ASCII
  letters, digits, spaces, newlines and the punctuation of JSON and of a header line. On
  such a text \<^verbatim>\<open>split()\<close> cuts at the runs of spaces, tabs, newlines and carriage returns,
  and on a piece it gives \<^verbatim>\<open>int\<close> reads an optional sign and decimal digits:
\<close>

definition ascii_space :: "char \<Rightarrow> bool" where
  "ascii_space c = (c \<in> set [CHR '' '', CHR 0x09, CHR 0x0A, CHR 0x0D])"

fun ascii_split_from :: "string \<Rightarrow> string \<Rightarrow> string list" where
  "ascii_split_from cur [] = (if cur = [] then [] else [cur])"
| "ascii_split_from cur (c # cs) =
     (if ascii_space c then (if cur = [] then ascii_split_from [] cs else cur # ascii_split_from [] cs)
      else ascii_split_from (cur @ [c]) cs)"

definition ascii_split :: "string \<Rightarrow> string list" where
  "ascii_split s = ascii_split_from [] s"

definition digit_of :: "char \<Rightarrow> nat option" where
  "digit_of c = map_of (zip ''0123456789'' [0 ..< 10]) c"

fun nat_of_digits :: "nat \<Rightarrow> string \<Rightarrow> nat option" where
  "nat_of_digits n [] = Some n"
| "nat_of_digits n (c # cs) =
     (case digit_of c of None \<Rightarrow> None | Some d \<Rightarrow> nat_of_digits (10 * n + d) cs)"

definition ascii_int :: "string \<Rightarrow> int option" where
  "ascii_int s =
     (case s of
        [] \<Rightarrow> None
      | c # cs \<Rightarrow>
          if c = CHR ''-'' then (if cs = [] then None else map_option (\<lambda>n. - int n) (nat_of_digits 0 cs))
          else if c = CHR ''+'' then (if cs = [] then None else map_option int (nat_of_digits 0 cs))
          else map_option int (nat_of_digits 0 s))"

text \<open>
  \<open>example_python\<close> stands for Python on the texts the examples use: it parses
  \<^verbatim>\<open>{"id":1}\<close>, and the same text inside a list on three lines, and rejects the other
  texts, as \<^verbatim>\<open>json.loads\<close> does. \<open>example_wadl\<close> is an application with one resource
  \<^verbatim>\<open>/servers\<close> and one documented \<^verbatim>\<open>GET\<close> method, whose response has the given status
  attribute and code samples and no documentation of its own.
\<close>

definition example_python :: python where
  \<open>example_python =
     \<lparr>loads = map_of
        [(''{"id":1}'', JDict [(KStr ''id'', JInt 1)]),
         (''[\<newline>{"id":1}\<newline>]'', JList [JDict [(KStr ''id'', JInt 1)]])],
      dumps = (\<lambda>data. if data = JDict [(KStr ''id'', JInt 1)] then ''{\<newline>    "id": 1\<newline>}''
                      else ''[\<newline>    {\<newline>        "id": 1\<newline>    }\<newline>]''),
      py_split = ascii_split,
      py_int = ascii_int\<rparr>\<close>

definition example_wadl :: "string \<Rightarrow> string option list \<Rightarrow> wadl_application" where
  "example_wadl status samples =
     \<lparr>resource_base = Some ''http://localhost'',
      resources =
        [\<lparr>resource_path = ''/servers'',
          json_parameters = None,
          tag_parameters = [],
          method_iter =
            [\<lparr>method_name = ''get'',
              rax_id = None,
              title_attr = Title ''List servers'',
              short_desc = None,
              request = None,
              response = Some \<lparr>status_attr = Some status,
                                doc_text = None,
                                json_media_type = Some ''application/json'',
                                code_samples = samples\<rparr>\<rparr>]\<rparr>]\<rparr>"

text \<open>
  The document \<^verbatim>\<open>convert\<close> builds from \<open>example_wadl\<close> with title \<^verbatim>\<open>API\<close> and no overlay,
  as a function of the responses of the operation.
\<close>

definition example_swagger :: "dict \<Rightarrow> dict" where
  "example_swagger responses =
     [(KStr ''swagger'', JStr ''2.0''),
      (KStr ''info'', JDict [(KStr ''title'', JStr ''API''), (KStr ''version'', JStr ''Unknown'')]),
      (KStr ''consumes'', JList [JStr ''application/json'']),
      (KStr ''produces'', JList [JStr ''application/json'']),
      (KStr ''paths'',
       JDict [(KStr ''/servers'',
         JDict [(KStr ''get'',
           JDict [(KStr ''summary'', JStr ''List servers''),
                  (KStr ''produces'', JList [JStr ''application/json'']),
                  (KStr ''responses'', JDict responses)])])])]"

text \<open>
  A store for the examples of \<open>merge_dicts_at\<close>: the document \<^verbatim>\<open>{x: 1, n: {p: true}}\<close> at
  address 0, its nested mapping an object of its own at address 1; and an overlay that
  conflicts with it at \<^verbatim>\<open>n.p\<close>, after the keys \<^verbatim>\<open>y\<close> and \<^verbatim>\<open>n.q\<close>.
\<close>

definition example_store :: store where
  "example_store =
     (\<lambda>r. [])(0 := [(KStr ''x'', Val (JInt 1)), (KStr ''n'', Ref 1)],
             1 := [(KStr ''p'', Val (JBool True))])"

definition example_overlay :: dict where
  "example_overlay =
     [(KStr ''y'', JInt 2),
      (KStr ''n'', JDict [(KStr ''q'', JInt 5), (KStr ''p'', JBool False), (KStr ''r'', JInt 6)]),
      (KStr ''z'', JInt 4)]"

section \<open>Properties of \<^verbatim>\<open>merge_dicts\<close>\<close>

subsection \<open>Mappings\<close>

lemma map_of_dict_set: "map_of (dict_set d k v) k' = (if k' = k then Some v else map_of d k')"
  by (induction d) auto


lemma keys_dict_set: "map fst (dict_set d k v) = (if k \<in> fst ` set d then map fst d else map fst d @ [k])"
  by (induction d) (auto split: if_splits)

lemma merge_dicts_other_key:
  "k \<notin> fst ` set b \<Longrightarrow> map_of (fst (merge_dicts a b path)) k = map_of a k"
proof (induction a b path rule: merge_dicts.induct)
  case (1 a path)
  then show ?case by simp
next
  case (2 a k' vb b path)
  then show ?case
    by (auto simp: map_of_dict_set split: option.splits prod.splits)
qed

lemma float_eq_refl: "float_eq x x \<longleftrightarrow> (\<forall>i. x \<noteq> NaN i)"
  by (cases x) auto



lemma no_nan_values_Cons:
  "no_nan_values (JDict ((k, v) # d)) \<longleftrightarrow> \<not> is_nan v \<and> no_nan_values v \<and> no_nan_values (JDict d)"
  by simp


lemma wf_dict_Cons: "wf_dict ((k, v) # d) \<longleftrightarrow> k \<notin> fst ` set d \<and> wf_json v \<and> wf_dict d"
  by (auto simp: wf_dict_def)

lemma wf_dict_the_dict: "wf_json v \<Longrightarrow> wf_dict (the_dict v)"
  by (cases v) (auto simp: wf_dict_def)

lemma is_dict_the_dict: "is_dict v \<Longrightarrow> JDict (the_dict v) = v"
  by (cases v) auto




subsection \<open>Conflicts\<close>

lemma conflict_at_Cons:
  "conflict_at a b (k # ks) \<longleftrightarrow>
     (case map_of a k of
        None \<Rightarrow> False
      | Some va \<Rightarrow>
          (case map_of b k of
             None \<Rightarrow> False
           | Some vb \<Rightarrow>
               if ks = [] then \<not> (is_dict va \<and> is_dict vb) \<and> \<not> py_eq va vb
               else is_dict va \<and> is_dict vb \<and> conflict_at (the_dict va) (the_dict vb) ks))"
  by (cases ks) (auto simp: conflict_at_def is_dict_the_dict split: option.splits)

lemma conflict_at_Nil [simp]: "\<not> conflict_at a b []"
  by (simp add: conflict_at_def)

lemma conflict_at_cong:
  "map_of a (hd ks) = map_of a' (hd ks) \<Longrightarrow> map_of b (hd ks) = map_of b' (hd ks) \<Longrightarrow>
   conflict_at a b ks = conflict_at a' b' ks"
  by (cases ks) (auto simp: conflict_at_Cons split: option.splits)

lemma conflict_at_in_keys: "conflict_at a b ks \<Longrightarrow> hd ks \<in> fst ` set b \<and> map_of a (hd ks) \<noteq> None"
  by (cases ks) (auto simp: conflict_at_Cons split: option.splits dest: map_of_SomeD intro: rev_image_eqI)


lemma merge_dicts_conflict_complete:
  "wf_dict b \<Longrightarrow> conflict_at a b ks \<Longrightarrow> snd (merge_dicts a b path) \<noteq> None"
proof (induction a b path arbitrary: ks rule: merge_dicts.induct)
  case (1 a path)
  then show ?case by (cases ks) (simp_all add: conflict_at_Cons split: option.splits)
next
  case (2 a k vb b path)
  from "2.prems"(1) have knb: "k \<notin> fst ` set b" and wfv: "wf_json vb" and wfb: "wf_dict b"
    by (auto simp: wf_dict_Cons)
  from "2.prems"(2) obtain k1 ks1 where ks: "ks = k1 # ks1" by (cases ks) auto
  have down: "conflict_at a1 b ks"
    if "k1 \<noteq> k" and "\<And>k'. k' \<noteq> k \<Longrightarrow> map_of a1 k' = map_of a k'" for a1
  proof -
    have "conflict_at a ((k, vb) # b) ks = conflict_at a1 b ks"
      by (rule conflict_at_cong) (use that ks in auto)
    with "2.prems"(2) show ?thesis by simp
  qed
  show ?case
  proof (cases "map_of a k")
    case None
    with "2.prems"(2) ks have ne: "k1 \<noteq> k" by (auto simp: conflict_at_Cons)
    from down[OF ne, of "dict_set a k vb"] have "conflict_at (dict_set a k vb) b ks"
      by (simp add: map_of_dict_set)
    from "2.IH"(1)[OF None wfb this] None show ?thesis by simp
  next
    case (Some va)
    show ?thesis
    proof (cases "is_dict va \<and> is_dict vb")
      case True
      obtain da r where inner: "merge_dicts (the_dict va) (the_dict vb) (path @ [str_of_key k]) = (da, r)"
        by (cases "merge_dicts (the_dict va) (the_dict vb) (path @ [str_of_key k])")
      show ?thesis
      proof (cases r)
        case None
        have ne: "k1 \<noteq> k"
        proof
          assume "k1 = k"
          with "2.prems"(2) ks Some True have "conflict_at (the_dict va) (the_dict vb) ks1"
            by (auto simp: conflict_at_Cons split: if_splits)
          from "2.IH"(2)[OF Some True wf_dict_the_dict[OF wfv] this] inner None
          show False by simp
        qed
        from down[OF ne, of "dict_set a k (JDict da)"]
        have "conflict_at (dict_set a k (JDict da)) b ks" by (simp add: map_of_dict_set)
        from "2.IH"(3)[OF Some True inner[symmetric] None wfb this] Some True inner None
        show ?thesis by simp
      next
        case (Some e')
        with \<open>map_of a k = Some va\<close> True inner show ?thesis by simp
      qed
    next
      case False
      show ?thesis
      proof (cases "py_eq va vb")
        case True
        with "2.prems"(2) ks Some False have ne: "k1 \<noteq> k"
          by (auto simp: conflict_at_Cons split: if_splits)
        from down[OF ne, of a] have "conflict_at a b ks" by simp
        from "2.IH"(4)[OF Some False True wfb this] Some False True show ?thesis by auto
      next
        case neq: False
        with Some False show ?thesis by auto
      qed
    qed
  qed
qed

subsection \<open>What a call leaves in \<^verbatim>\<open>a\<close>\<close>

lemma lookup_path_JDict_Cons:
  "lookup_path (JDict d) (k # ks) = (case map_of d k of None \<Rightarrow> None | Some w \<Rightarrow> lookup_path w ks)"
  by simp

lemma lookup_path_leaf: "\<not> is_dict v \<Longrightarrow> lookup_path v ks = Some w \<Longrightarrow> ks = [] \<and> w = v"
  by (cases ks) auto

lemma merge_dicts_leaf_kept:
  "merge_dicts a b path = (a', r) \<Longrightarrow> lookup_path (JDict a) ks = Some v \<Longrightarrow> \<not> is_dict v \<Longrightarrow>
   lookup_path (JDict a') ks = Some v"
proof (induction a b path arbitrary: a' r ks v rule: merge_dicts.induct)
  case (1 a path)
  then show ?case by simp
next
  case (2 a k vb b path)
  from "2.prems"(2,3) obtain k1 ks1 where ks: "ks = k1 # ks1" by (cases ks) auto
  show ?case
  proof (cases "map_of a k")
    case None
    with "2.prems"(1) have m: "merge_dicts (dict_set a k vb) b path = (a', r)" by simp
    from "2.prems"(2) ks None have "k1 \<noteq> k" by (auto split: option.splits)
    with "2.prems"(2) ks have "lookup_path (JDict (dict_set a k vb)) ks = Some v"
      by (simp add: map_of_dict_set)
    from "2.IH"(1)[OF None m this "2.prems"(3)] show ?thesis .
  next
    case (Some va)
    show ?thesis
    proof (cases "is_dict va \<and> is_dict vb")
      case True
      obtain da r' where inner: "merge_dicts (the_dict va) (the_dict vb) (path @ [str_of_key k]) = (da, r')"
        by (cases "merge_dicts (the_dict va) (the_dict vb) (path @ [str_of_key k])")
      have l1: "lookup_path (JDict (dict_set a k (JDict da))) ks = Some v"
      proof (cases "k1 = k")
        case True
        with "2.prems"(2) ks Some have "lookup_path va ks1 = Some v" by simp
        with \<open>is_dict va \<and> is_dict vb\<close> have "lookup_path (JDict (the_dict va)) ks1 = Some v"
          by (simp add: is_dict_the_dict)
        from "2.IH"(2)[OF Some \<open>is_dict va \<and> is_dict vb\<close> inner this "2.prems"(3)]
        show ?thesis using True ks by (simp add: map_of_dict_set)
      next
        case False
        with "2.prems"(2) ks show ?thesis by (simp add: map_of_dict_set)
      qed
      show ?thesis
      proof (cases r')
        case None
        with "2.prems"(1) Some True inner
        have m: "merge_dicts (dict_set a k (JDict da)) b path = (a', r)" by simp
        from "2.IH"(3)[OF Some True inner[symmetric] None m l1 "2.prems"(3)] show ?thesis .
      next
        case (Some e)
        with "2.prems"(1) \<open>map_of a k = Some va\<close> True inner have "a' = dict_set a k (JDict da)" by simp
        with l1 show ?thesis by simp
      qed
    next
      case False
      show ?thesis
      proof (cases "py_eq va vb")
        case True
        with "2.prems"(1) Some False have m: "merge_dicts a b path = (a', r)" by auto
        from "2.IH"(4)[OF Some False True m "2.prems"(2,3)] show ?thesis .
      next
        case neq: False
        with "2.prems"(1) Some False have "a' = a" by auto
        with "2.prems"(2) show ?thesis by simp
      qed
    qed
  qed
qed

lemma merge_dicts_keys_kept: "map_of a k \<noteq> None \<Longrightarrow> map_of (fst (merge_dicts a b path)) k \<noteq> None"
proof (induction a b path rule: merge_dicts.induct)
  case (1 a path)
  then show ?case by simp
next
  case (2 a k' vb b path)
  then show ?case
    by (auto simp: map_of_dict_set split: option.splits prod.splits if_splits)
qed

lemma merge_dicts_raise_split:
  "distinct (map fst b) \<Longrightarrow> merge_dicts a b path = (a', Some e) \<Longrightarrow>
   \<exists>pre k v post a1.
     b = pre @ (k, v) # post \<and>
     merge_dicts a pre path = (a1, None) \<and>
     merge_dicts a1 [(k, v)] path = (a', Some e) \<and>
     list_all (\<lambda>(k', v'). case map_of a k' of None \<Rightarrow> map_of a' k' = Some v'
                                            | Some u \<Rightarrow> map_of a' k' \<noteq> None) pre"
proof (induction a b path arbitrary: a' e rule: merge_dicts.induct)
  case (1 a path)
  then show ?case by simp
next
  case (2 a k vb b path)
  from "2.prems"(1) have knb: "k \<notin> fst ` set b" and db: "distinct (map fst b)" by auto
  (* the step taken on (k, vb) succeeded and the failure lies in the rest *)
  have later: ?case
    if step: "merge_dicts a [(k, vb)] path = (a0, None)"
      and rest: "merge_dicts a0 b path = (a', Some e)"
      and unf: "\<And>c. merge_dicts a ((k, vb) # c) path = merge_dicts a0 c path"
      and same: "\<And>k'. k' \<noteq> k \<Longrightarrow> map_of a0 k' = map_of a k'"
      and here: "map_of a0 k \<noteq> None" "map_of a k = None \<Longrightarrow> map_of a0 k = Some vb"
      and ih: "\<exists>pre k v post a1.
         b = pre @ (k, v) # post \<and>
         merge_dicts a0 pre path = (a1, None) \<and>
         merge_dicts a1 [(k, v)] path = (a', Some e) \<and>
         list_all (\<lambda>(k', v'). case map_of a0 k' of None \<Rightarrow> map_of a' k' = Some v'
                                            | Some u \<Rightarrow> map_of a' k' \<noteq> None) pre" for a0
  proof -
    from ih obtain pre k2 v2 post a1 where
      b: "b = pre @ (k2, v2) # post" and
      p: "merge_dicts a0 pre path = (a1, None)" and
      f: "merge_dicts a1 [(k2, v2)] path = (a', Some e)" and
      w: "list_all (\<lambda>(k', v'). case map_of a0 k' of None \<Rightarrow> map_of a' k' = Some v'
                                            | Some u \<Rightarrow> map_of a' k' \<noteq> None) pre"
      by blast
    from knb b have knpre: "k \<notin> fst ` set pre" and kn2: "k \<noteq> k2" by auto
    have a1k: "map_of a1 k = map_of a0 k"
      using merge_dicts_other_key[OF knpre, of a0 path] p by simp
    have a'k: "map_of a' k = map_of a1 k"
      using merge_dicts_other_key[of k "[(k2, v2)]" a1 path] f kn2 by simp
    have w': "list_all (\<lambda>(k', v'). case map_of a k' of None \<Rightarrow> map_of a' k' = Some v'
                                            | Some u \<Rightarrow> map_of a' k' \<noteq> None) ((k, vb) # pre)"
    proof -
      have tail: "\<forall>(k', v') \<in> set pre.
          (case map_of a k' of None \<Rightarrow> map_of a' k' = Some v' | Some u \<Rightarrow> map_of a' k' \<noteq> None)"
      proof (clarify, goal_cases)
        case (1 k' v')
        with knpre have "k' \<noteq> k" by force
        with same have "map_of a0 k' = map_of a k'" by simp
        with w 1 show ?case by (auto simp: list_all_iff)
      qed
      have head: "(case map_of a k of None \<Rightarrow> map_of a' k = Some vb | Some u \<Rightarrow> map_of a' k \<noteq> None)"
        using a'k a1k here by (auto split: option.splits)
      show ?thesis using tail head by (simp add: list_all_iff)
    qed
    have "(k, vb) # b = ((k, vb) # pre) @ (k2, v2) # post" using b by simp
    moreover have "merge_dicts a ((k, vb) # pre) path = (a1, None)" using unf p by simp
    ultimately show ?thesis using f w' by blast
  qed
  (* the step on (k, vb) itself raises *)
  have now: ?case if "merge_dicts a [(k, vb)] path = (a', Some e)"
    using that by (intro exI[of _ "[]"] exI[of _ k] exI[of _ vb] exI[of _ b] exI[of _ a]) simp
  show ?case
  proof (cases "map_of a k")
    case None
    with "2.prems"(2) have m: "merge_dicts (dict_set a k vb) b path = (a', Some e)" by simp
    show ?thesis
      by (rule later[of "dict_set a k vb"])
         (use None m "2.IH"(1)[OF None db m] in \<open>simp_all add: map_of_dict_set\<close>)
  next
    case (Some va)
    show ?thesis
    proof (cases "is_dict va \<and> is_dict vb")
      case True
      obtain da r where inner: "merge_dicts (the_dict va) (the_dict vb) (path @ [str_of_key k]) = (da, r)"
        by (cases "merge_dicts (the_dict va) (the_dict vb) (path @ [str_of_key k])")
      show ?thesis
      proof (cases r)
        case None
        with "2.prems"(2) Some True inner
        have m: "merge_dicts (dict_set a k (JDict da)) b path = (a', Some e)" by simp
        show ?thesis
          by (rule later[of "dict_set a k (JDict da)"])
             (use Some True inner None m "2.IH"(3)[OF Some True inner[symmetric] None db m]
               in \<open>simp_all add: map_of_dict_set\<close>)
      next
        case (Some e')
        with "2.prems"(2) \<open>map_of a k = Some va\<close> True inner show ?thesis
          by (intro now) simp
      qed
    next
      case False
      show ?thesis
      proof (cases "py_eq va vb")
        case True
        with "2.prems"(2) Some False have m: "merge_dicts a b path = (a', Some e)" by auto
        show ?thesis
          by (rule later[of a])
             (use Some False True m "2.IH"(4)[OF Some False True db m] in auto)
      next
        case neq: False
        with "2.prems"(2) Some False show ?thesis
          by (intro now) auto
      qed
    qed
  qed
qed

lemma merge_dicts_keys:
  assumes "distinct (map fst b)"
  shows "merge_dicts a b path = (a', None) \<Longrightarrow>
         map fst a' = map fst a @ filter (\<lambda>k. k \<notin> fst ` set a) (map fst b)"
  using assms
proof (induction a b path arbitrary: a' rule: merge_dicts.induct)
  case (1 a path)
  then show ?case by simp
next
  case (2 a k vb b path)
  from "2.prems"(2) have knb: "k \<notin> fst ` set b" and db: "distinct (map fst b)" by auto
  show ?case
  proof (cases "map_of a k")
    case None
    then have kna: "k \<notin> fst ` set a" by (simp add: map_of_eq_None_iff)
    from None "2.prems"(1) have m: "merge_dicts (dict_set a k vb) b path = (a', None)" by simp
    have f: "filter (\<lambda>x. x \<notin> fst ` set (dict_set a k vb)) (map fst b) =
             filter (\<lambda>x. x \<notin> fst ` set a) (map fst b)"
    proof (rule filter_cong[OF refl])
      fix x assume "x \<in> set (map fst b)"
      with knb have "x \<noteq> k" by auto
      moreover have "fst ` set (dict_set a k vb) = insert k (fst ` set a)"
        using keys_dict_set[of a k vb] kna
        by (metis list.set_map set_append list.set(1,2) Un_insert_right sup_bot.right_neutral)
      ultimately show "(x \<notin> fst ` set (dict_set a k vb)) = (x \<notin> fst ` set a)" by simp
    qed
    from "2.IH"(1)[OF None m db] f kna show ?thesis
      by (simp add: keys_dict_set)
  next
    case (Some va)
    then have ka: "k \<in> fst ` set a" by (auto dest: map_of_SomeD intro: rev_image_eqI)
    show ?thesis
    proof (cases "is_dict va \<and> is_dict vb")
      case True
      obtain da r where inner: "merge_dicts (the_dict va) (the_dict vb) (path @ [str_of_key k]) = (da, r)"
        by (cases "merge_dicts (the_dict va) (the_dict vb) (path @ [str_of_key k])")
      with "2.prems"(1) Some True have r: "r = None"
        and m: "merge_dicts (dict_set a k (JDict da)) b path = (a', None)"
        by (auto split: option.splits)
      have keys: "map fst (dict_set a k (JDict da)) = map fst a"
        using ka by (simp add: keys_dict_set)
      then have "fst ` set (dict_set a k (JDict da)) = fst ` set a"
        by (metis list.set_map)
      with "2.IH"(3)[OF Some True inner[symmetric] r m db] keys ka show ?thesis by simp
    next
      case False
      with "2.prems"(1) Some have m: "merge_dicts a b path = (a', None)"
        by (auto split: if_splits)
      with "2.IH"(4)[OF Some False _ m db] "2.prems"(1) Some False ka show ?thesis
        by (auto split: if_splits)
    qed
  qed
qed

subsection \<open>What a call has written\<close>

lemma py_eq_is_dict: "py_eq w v \<Longrightarrow> is_dict w = is_dict v"
  by (cases w; cases v) (auto simp: py_eq_def)

lemma merged_in_refl: "merged_in v v"
  by (simp add: merged_in_def)

lemma merged_in_grows:
  assumes "merged_in vb w" and "grows w w'"
  shows "merged_in vb w'"
proof (cases "is_dict vb")
  case True
  with assms show ?thesis by (auto simp: merged_in_def grows_def)
next
  case False
  with assms(1) have "w = vb \<or> py_eq w vb" by (simp add: merged_in_def)
  with False have "\<not> is_dict w" by (auto dest: py_eq_is_dict)
  with assms(2) have "w' = w" by (simp add: grows_def)
  with assms(1) show ?thesis by simp
qed

lemma lookup_path_append:
  "lookup_path v (ks @ ks') = (case lookup_path v ks of None \<Rightarrow> None | Some w \<Rightarrow> lookup_path w ks')"
  by (induction ks arbitrary: v) (auto split: option.splits)

lemma all_paths_lookup:
  "wf_json v \<Longrightarrow> ks \<in> set (all_paths v) \<Longrightarrow> ks \<noteq> [] \<and> lookup_path v ks \<noteq> None"
proof (induction v arbitrary: ks)
  case (JDict d)
  from JDict.prems(2) obtain k w where kw: "(k, w) \<in> set d"
    and ks: "ks = [k] \<or> (\<exists>ks'. ks = k # ks' \<and> ks' \<in> set (all_paths w))"
    by auto
  from JDict.prems(1) kw have look: "map_of d k = Some w" and wfw: "wf_json w"
    by (auto simp: list_all_iff)
  from ks show ?case
  proof
    assume "ks = [k]"
    with look show ?thesis by simp
  next
    assume "\<exists>ks'. ks = k # ks' \<and> ks' \<in> set (all_paths w)"
    then obtain ks' where k': "ks = k # ks'" "ks' \<in> set (all_paths w)" by blast
    from JDict.IH[OF kw _ wfw k'(2)] have "lookup_path w ks' \<noteq> None" by simp
    with k' look show ?thesis by simp
  qed
qed auto

lemma json_le_refl: "json_le v v"
  by (auto simp: json_le_def grows_def)

lemma grows_trans: "grows u v \<Longrightarrow> grows v w \<Longrightarrow> grows u w"
  by (auto simp: grows_def split: if_splits)

lemma json_le_trans: "json_le u v \<Longrightarrow> json_le v w \<Longrightarrow> json_le u w"
  unfolding json_le_def by (meson grows_trans)

lemma json_le_dict_set:
  assumes "case map_of a k of None \<Rightarrow> True | Some u \<Rightarrow> json_le u v"
  shows "json_le (JDict a) (JDict (dict_set a k v))"
  unfolding json_le_def
proof (intro allI impI)
  fix ks w assume l: "lookup_path (JDict a) ks = Some w"
  show "\<exists>w'. lookup_path (JDict (dict_set a k v)) ks = Some w' \<and> grows w w'"
  proof (cases ks)
    case Nil
    with l show ?thesis by (auto simp: grows_def)
  next
    case (Cons k1 ks1)
    show ?thesis
    proof (cases "k1 = k")
      case False
      with l Cons show ?thesis by (auto simp: map_of_dict_set grows_def split: option.splits)
    next
      case True
      with l Cons obtain u where u: "map_of a k = Some u" "lookup_path u ks1 = Some w"
        by (auto split: option.splits)
      with assms have "json_le u v" by simp
      with u(2) obtain w' where "lookup_path v ks1 = Some w'" "grows w w'"
        unfolding json_le_def by blast
      with True Cons show ?thesis by (simp add: map_of_dict_set)
    qed
  qed
qed

lemma merge_dicts_json_le: "merge_dicts a b path = (a', r) \<Longrightarrow> json_le (JDict a) (JDict a')"
proof (induction a b path arbitrary: a' r rule: merge_dicts.induct)
  case (1 a path)
  then show ?case by (simp add: json_le_refl)
next
  case (2 a k vb b path)
  show ?case
  proof (cases "map_of a k")
    case None
    with "2.prems" have m: "merge_dicts (dict_set a k vb) b path = (a', r)" by simp
    have s: "json_le (JDict a) (JDict (dict_set a k vb))"
      by (rule json_le_dict_set) (simp add: None)
    from s "2.IH"(1)[OF None m] show ?thesis by (rule json_le_trans)
  next
    case (Some va)
    show ?thesis
    proof (cases "is_dict va \<and> is_dict vb")
      case True
      obtain da r' where inner: "merge_dicts (the_dict va) (the_dict vb) (path @ [str_of_key k]) = (da, r')"
        by (cases "merge_dicts (the_dict va) (the_dict vb) (path @ [str_of_key k])")
      from "2.IH"(2)[OF Some True inner] True have "json_le va (JDict da)"
        by (simp add: is_dict_the_dict)
      then have step: "json_le (JDict a) (JDict (dict_set a k (JDict da)))"
        by (intro json_le_dict_set) (simp add: Some)
      show ?thesis
      proof (cases r')
        case None
        with "2.prems" Some True inner
        have m: "merge_dicts (dict_set a k (JDict da)) b path = (a', r)" by simp
        from step "2.IH"(3)[OF Some True inner[symmetric] None m] show ?thesis
          by (rule json_le_trans)
      next
        case (Some e)
        with "2.prems" \<open>map_of a k = Some va\<close> True inner have "a' = dict_set a k (JDict da)" by simp
        with step show ?thesis by simp
      qed
    next
      case False
      show ?thesis
      proof (cases "py_eq va vb")
        case True
        with "2.prems" Some False have m: "merge_dicts a b path = (a', r)" by auto
        from "2.IH"(4)[OF Some False True m] show ?thesis .
      next
        case neq: False
        with "2.prems" Some False have "a' = a" by auto
        then show ?thesis by (simp add: json_le_refl)
      qed
    qed
  qed
qed

lemma written_in_mono:
  assumes "written_in a b ks" and "json_le (JDict a) (JDict a')"
  shows "written_in a' b ks"
proof -
  from assms(1) obtain vb w where l: "lookup_path (JDict b) ks = Some vb"
    "lookup_path (JDict a) ks = Some w" "merged_in vb w"
    by (auto simp: written_in_def holds_at_def split: option.splits)
  from assms(2) l(2) obtain w' where "lookup_path (JDict a') ks = Some w'" "grows w w'"
    unfolding json_le_def by blast
  with l(1,3) show ?thesis
    by (auto simp: written_in_def holds_at_def intro: merged_in_grows)
qed

lemma json_le_grows: "json_le v v' \<Longrightarrow> grows v v'"
  unfolding json_le_def by (metis lookup_path.simps(1) option.inject)

lemma json_le_lookup:
  assumes "json_le v v'" and "lookup_path v ks = Some w"
  shows "\<exists>w'. lookup_path v' ks = Some w' \<and> json_le w w'"
proof -
  from assms obtain w' where w': "lookup_path v' ks = Some w'" "grows w w'"
    unfolding json_le_def by blast
  have "json_le w w'"
    unfolding json_le_def
  proof (intro allI impI)
    fix ks2 x assume "lookup_path w ks2 = Some x"
    with assms(2) have "lookup_path v (ks @ ks2) = Some x" by (simp add: lookup_path_append)
    with assms(1) obtain x' where "lookup_path v' (ks @ ks2) = Some x'" "grows x x'"
      unfolding json_le_def by blast
    with w'(1) show "\<exists>w'a. lookup_path w' ks2 = Some w'a \<and> grows x w'a"
      by (simp add: lookup_path_append)
  qed
  with w'(1) show ?thesis by blast
qed

lemma all_paths_Cons:
  "all_paths (JDict ((k, v) # b)) = ([k] # map ((#) k) (all_paths v)) @ all_paths (JDict b)"
  by simp

lemma all_paths_the_dict: "all_paths (JDict (the_dict v)) = all_paths v"
  by (cases v) auto

lemma all_paths_hd: "ks \<in> set (all_paths (JDict d)) \<Longrightarrow> ks \<noteq> [] \<and> hd ks \<in> fst ` set d"
  by (auto intro: rev_image_eqI)

lemma walked_before_Cons:
  "walked_before ((k, v) # b) (c # cs) =
     (if c = k then map ((#) k) (walked_before (the_dict v) cs)
      else ([k] # map ((#) k) (all_paths v)) @ walked_before b (c # cs))"
  by auto

lemma map_of_Some_key: "Some v = map_of b c \<Longrightarrow> c \<in> fst ` set b"
  by (metis map_of_SomeD fst_conv image_eqI)

lemma walked_before_hd:
  assumes "ks \<in> set (walked_before b cs)"
  shows "ks \<noteq> [] \<and> hd ks \<in> fst ` set b"
proof (cases cs)
  case Nil
  with assms show ?thesis by simp
next
  case (Cons c cs')
  with assms show ?thesis
    by (auto split: option.splits dest!: set_takeWhileD dest: map_of_Some_key intro: rev_image_eqI)
qed

lemma holds_at_Nil: "holds_at w vb [] = merged_in vb w"
  by (simp add: holds_at_def)

lemma holds_at_refl: "lookup_path v ks \<noteq> None \<Longrightarrow> holds_at v v ks"
  by (auto simp: holds_at_def merged_in_refl)

lemma holds_at_the_dict: "is_dict vb \<Longrightarrow> holds_at w (JDict (the_dict vb)) ks = holds_at w vb ks"
  by (simp add: is_dict_the_dict)

lemma written_in_key:
  "written_in a ((k, vb) # b) (k # ks) =
     (case map_of a k of None \<Rightarrow> False | Some w \<Rightarrow> holds_at w vb ks)"
  by (auto simp: written_in_def holds_at_def split: option.splits)

lemma written_in_tail:
  "ks \<noteq> [] \<Longrightarrow> hd ks \<noteq> k \<Longrightarrow> written_in a ((k, vb) # b) ks = written_in a b ks"
  by (cases ks) (auto simp: written_in_def holds_at_def)

lemma conflict_at_tail:
  "conflict_at a b cs \<Longrightarrow> k \<notin> fst ` set b \<Longrightarrow> conflict_at a ((k, vb) # b) cs"
proof -
  assume c: "conflict_at a b cs" and k: "k \<notin> fst ` set b"
  from conflict_at_in_keys[OF c] k have ne: "hd cs \<noteq> k" by auto
  have "conflict_at a b cs = conflict_at a ((k, vb) # b) cs"
    by (rule conflict_at_cong) (use ne in auto)
  with c show ?thesis by simp
qed

text \<open>One key of the overlay has been merged, and the rest of the call is known.\<close>

lemma merge_dicts_written_step:
  assumes knb: "k \<notin> fst ` set b"
    and head: "list_all (written_in a1 ((k, vb) # b)) ([k] # map ((#) k) (all_paths vb))"
    and rest: "merge_dicts a1 b path = (a', r)"
    and ih: "case r of
        None \<Rightarrow> list_all (written_in a' b) (all_paths (JDict b))
      | Some e \<Rightarrow> \<exists>cs. conflict_at a' b cs \<and> e = Conflict (join ''.'' (path @ map str_of_key cs)) \<and>
                      list_all (written_in a' b) (walked_before b cs)"
  shows "case r of
        None \<Rightarrow> list_all (written_in a' ((k, vb) # b)) (all_paths (JDict ((k, vb) # b)))
      | Some e \<Rightarrow> \<exists>cs. conflict_at a' ((k, vb) # b) cs \<and> e = Conflict (join ''.'' (path @ map str_of_key cs)) \<and>
                      list_all (written_in a' ((k, vb) # b)) (walked_before ((k, vb) # b) cs)"
proof -
  from merge_dicts_json_le[OF rest] head
  have head': "list_all (written_in a' ((k, vb) # b)) ([k] # map ((#) k) (all_paths vb))"
    by (auto simp: list_all_iff intro: written_in_mono)
  have tail: "written_in a' ((k, vb) # b) ks"
    if "written_in a' b ks" "ks \<noteq> []" "hd ks \<in> fst ` set b" for ks
    using that knb by (subst written_in_tail) auto
  show ?thesis
  proof (cases r)
    case None
    with ih have "list_all (written_in a' b) (all_paths (JDict b))" by simp
    then have "list_all (written_in a' ((k, vb) # b)) (all_paths (JDict b))"
      unfolding list_all_iff using tail all_paths_hd by blast
    with head' None show ?thesis
      unfolding all_paths_Cons by simp
  next
    case (Some e)
    with ih obtain cs where c: "conflict_at a' b cs"
      and e: "e = Conflict (join ''.'' (path @ map str_of_key cs))"
      and w: "list_all (written_in a' b) (walked_before b cs)"
      by auto
    from conflict_at_in_keys[OF c] knb have ne: "hd cs \<noteq> k" by auto
    from c obtain c1 cs1 where cs: "cs = c1 # cs1" by (cases cs) auto
    from w have "list_all (written_in a' ((k, vb) # b)) (walked_before b cs)"
      unfolding list_all_iff using tail walked_before_hd by blast
    with head' ne cs
    have "list_all (written_in a' ((k, vb) # b)) (walked_before ((k, vb) # b) cs)"
      unfolding cs walked_before_Cons by simp
    with conflict_at_tail[OF c knb] e Some show ?thesis by auto
  qed
qed

lemma merge_dicts_written:
  "wf_dict b \<Longrightarrow> merge_dicts a b path = (a', r) \<Longrightarrow>
   (case r of
      None \<Rightarrow> list_all (written_in a' b) (all_paths (JDict b))
    | Some e \<Rightarrow> \<exists>cs. conflict_at a' b cs \<and> e = Conflict (join ''.'' (path @ map str_of_key cs)) \<and>
                    list_all (written_in a' b) (walked_before b cs))"
proof (induction a b path arbitrary: a' r rule: merge_dicts.induct)
  case (1 a path)
  then show ?case by auto
next
  case (2 a k vb b path)
  from "2.prems"(1) have knb: "k \<notin> fst ` set b" and wfv: "wf_json vb" and wfb: "wf_dict b"
    by (auto simp: wf_dict_Cons)
  show ?case
  proof (cases "map_of a k")
    case None
    with "2.prems"(2) have m: "merge_dicts (dict_set a k vb) b path = (a', r)" by simp
    have head: "list_all (written_in (dict_set a k vb) ((k, vb) # b)) ([k] # map ((#) k) (all_paths vb))"
      using all_paths_lookup[OF wfv]
      by (auto simp: list_all_iff written_in_key map_of_dict_set holds_at_Nil merged_in_refl
          intro!: holds_at_refl)
    from knb head m "2.IH"(1)[OF None wfb m] show ?thesis by (rule merge_dicts_written_step)
  next
    case (Some va)
    show ?thesis
    proof (cases "is_dict va \<and> is_dict vb")
      case True
      obtain da r' where inner: "merge_dicts (the_dict va) (the_dict vb) (path @ [str_of_key k]) = (da, r')"
        by (cases "merge_dicts (the_dict va) (the_dict vb) (path @ [str_of_key k])")
      note ih2 = "2.IH"(2)[OF Some True wf_dict_the_dict[OF wfv] inner]
      show ?thesis
      proof (cases r')
        case None
        with "2.prems"(2) Some True inner
        have m: "merge_dicts (dict_set a k (JDict da)) b path = (a', r)" by simp
        from ih2 None have "list_all (written_in da (the_dict vb)) (all_paths vb)"
          by (simp only: all_paths_the_dict option.case)
        with True have "\<forall>x \<in> set (all_paths vb). holds_at (JDict da) vb x"
          by (simp add: list_all_iff written_in_def holds_at_the_dict)
        with True
        have head: "list_all (written_in (dict_set a k (JDict da)) ((k, vb) # b))
                      ([k] # map ((#) k) (all_paths vb))"
          by (auto simp: list_all_iff written_in_key map_of_dict_set holds_at_Nil merged_in_def)
        from knb head m "2.IH"(3)[OF Some True inner[symmetric] None wfb m]
        show ?thesis by (rule merge_dicts_written_step)
      next
        case (Some e)
        with "2.prems"(2) \<open>map_of a k = Some va\<close> True inner
        have a': "a' = dict_set a k (JDict da)" and r: "r = Some e" by simp_all
        from ih2 Some obtain cs where c: "conflict_at da (the_dict vb) cs"
          and e: "e = Conflict (join ''.'' ((path @ [str_of_key k]) @ map str_of_key cs))"
          and w: "list_all (written_in da (the_dict vb)) (walked_before (the_dict vb) cs)"
          by auto
        from c have ne: "cs \<noteq> []" by auto
        with c True have c': "conflict_at a' ((k, vb) # b) (k # cs)"
          by (simp add: conflict_at_Cons a' map_of_dict_set)
        from w True have "\<forall>x \<in> set (walked_before (the_dict vb) cs). holds_at (JDict da) vb x"
          by (simp add: list_all_iff written_in_def holds_at_the_dict)
        then have "list_all (written_in a' ((k, vb) # b)) (walked_before ((k, vb) # b) (k # cs))"
          unfolding walked_before_Cons
          by (auto simp: list_all_iff written_in_key a' map_of_dict_set)
        with c' e r show ?thesis by (auto intro!: exI[of _ "k # cs"])
      qed
    next
      case False
      show ?thesis
      proof (cases "py_eq va vb")
        case True
        with "2.prems"(2) Some False have m: "merge_dicts a b path = (a', r)" by auto
        from True False have nd: "\<not> is_dict vb" by (auto dest: py_eq_is_dict)
        then have "all_paths vb = []" by (cases vb) auto
        with Some True nd have head: "list_all (written_in a ((k, vb) # b)) ([k] # map ((#) k) (all_paths vb))"
          by (simp add: written_in_key holds_at_Nil merged_in_def)
        from knb head m "2.IH"(4)[OF Some False True wfb m]
        show ?thesis by (rule merge_dicts_written_step)
      next
        case neq: False
        with "2.prems"(2) Some False
        have a': "a' = a" and r: "r = Some (Conflict (join ''.'' (path @ [str_of_key k])))" by auto
        from Some False neq have "conflict_at a ((k, vb) # b) [k]"
          by (simp add: conflict_at_Cons)
        with a' r show ?thesis
          by (auto intro!: exI[of _ "[k]"])
      qed
    qed
  qed
qed

subsection \<open>The call on the caller's object\<close>

lemma store_lookup_Val: "store_lookup s (Val v) ks = map_option Val (lookup_path v ks)"
  by (cases ks) simp_all

lemma slot_at_Val_holds: "slot_at slot_holds s (Val w) vb ks = holds_at w vb ks"
  by (auto simp: slot_at_def holds_at_def store_lookup_Val split: option.splits)

lemma slot_at_Val_conflicts:
  "cs \<noteq> [] \<Longrightarrow> slot_at slot_conflicts s (Val (JDict da)) (JDict db) cs = conflict_at da db cs"
  by (auto simp: slot_at_def conflict_at_def store_lookup_Val split: option.splits)

lemma slot_at_the_dict: "is_dict vb \<Longrightarrow> slot_at P s sl (JDict (the_dict vb)) ks = slot_at P s sl vb ks"
  by (simp add: is_dict_the_dict)

lemma slot_at_Nil: "slot_at P s sl vb [] = P vb sl"
  by (simp add: slot_at_def)

lemma written_key:
  "written s a ((k, vb) # b) (k # ks) =
     (case map_of (s a) k of None \<Rightarrow> False | Some sl \<Rightarrow> slot_at slot_holds s sl vb ks)"
  by (auto simp: written_def slot_at_def split: option.splits)

lemma conflict_in_key:
  "conflict_in s a ((k, vb) # b) (k # cs) =
     (case map_of (s a) k of None \<Rightarrow> False | Some sl \<Rightarrow> slot_at slot_conflicts s sl vb cs)"
  by (auto simp: conflict_in_def slot_at_def split: option.splits)

lemma written_tail:
  "ks \<noteq> [] \<Longrightarrow> hd ks \<noteq> k \<Longrightarrow> written s a ((k, vb) # b) ks = written s a b ks"
  by (cases ks) (auto simp: written_def slot_at_def)

lemma conflict_in_keys: "conflict_in s a b cs \<Longrightarrow> hd cs \<in> fst ` set b"
  by (cases cs) (auto simp: conflict_in_def slot_at_def split: option.splits dest: map_of_Some_key map_of_Some_key[OF sym])

lemma conflict_in_tail:
  assumes "conflict_in s a b cs" and "k \<notin> fst ` set b"
  shows "conflict_in s a ((k, vb) # b) cs"
proof -
  from conflict_in_keys[OF assms(1)] assms(2) have "hd cs \<noteq> k" by auto
  with assms(1) show ?thesis
    by (cases cs) (auto simp: conflict_in_def slot_at_def)
qed

lemma slot_le_refl: "slot_le sl sl"
  by (cases sl) (auto simp: json_le_refl)

lemma slot_le_trans: "slot_le x y \<Longrightarrow> slot_le y z \<Longrightarrow> slot_le x z"
  by (cases x; cases y; cases z) (auto intro: json_le_trans)

lemma store_le_refl: "store_le s s"
  by (auto simp: store_le_def slot_le_refl)

lemma store_le_trans: "store_le s t \<Longrightarrow> store_le t u \<Longrightarrow> store_le s u"
  unfolding store_le_def by (meson slot_le_trans)

lemma store_lookup_mono:
  "store_le s s' \<Longrightarrow> slot_le sl0 sl0' \<Longrightarrow> store_lookup s sl0 ks = Some sl \<Longrightarrow>
   \<exists>sl'. store_lookup s' sl0' ks = Some sl' \<and> slot_le sl sl'"
proof (induction ks arbitrary: sl0 sl0')
  case Nil
  then show ?case by simp
next
  case (Cons k ks)
  show ?case
  proof (cases sl0)
    case (Ref r)
    with Cons.prems(2) have r': "sl0' = Ref r" by simp
    from Cons.prems(3) Ref obtain x where x: "map_of (s r) k = Some x" "store_lookup s x ks = Some sl"
      by (auto split: option.splits)
    from Cons.prems(1) x(1) obtain x' where x': "map_of (s' r) k = Some x'" "slot_le x x'"
      unfolding store_le_def by blast
    from Cons.IH[OF Cons.prems(1) x'(2) x(2)] x'(1) r' show ?thesis by simp
  next
    case (Val v)
    with Cons.prems(2) obtain v' where v': "sl0' = Val v'" "json_le v v'"
      by (cases sl0') auto
    from Cons.prems(3) Val obtain w where w: "lookup_path v (k # ks) = Some w" "sl = Val w"
      by (auto simp: store_lookup_Val)
    from json_le_lookup[OF v'(2) w(1)] obtain w' where "lookup_path v' (k # ks) = Some w'" "json_le w w'"
      by blast
    with v'(1) w(2) show ?thesis by (auto simp: store_lookup_Val)
  qed
qed

lemma slot_holds_mono: "slot_holds vb sl \<Longrightarrow> slot_le sl sl' \<Longrightarrow> slot_holds vb sl'"
  by (cases sl; cases sl') (auto intro: merged_in_grows json_le_grows)

lemma written_mono:
  assumes "written s a b ks" and "store_le s s'"
  shows "written s' a b ks"
proof -
  from assms(1) obtain vb sl where l: "lookup_path (JDict b) ks = Some vb"
    "store_lookup s (Ref a) ks = Some sl" "slot_holds vb sl"
    by (auto simp: written_def slot_at_def split: option.splits)
  from store_lookup_mono[OF assms(2) slot_le_refl l(2)] obtain sl' where
    "store_lookup s' (Ref a) ks = Some sl'" "slot_le sl sl'" by blast
  with l(1,3) show ?thesis
    by (auto simp: written_def slot_at_def intro: slot_holds_mono)
qed

lemma store_le_upd:
  assumes "case map_of (s a) k of None \<Rightarrow> True | Some sl0 \<Rightarrow> slot_le sl0 sl"
  shows "store_le s (s(a := dict_set (s a) k sl))"
  unfolding store_le_def
proof (intro allI impI)
  fix r k' x assume l: "map_of (s r) k' = Some x"
  show "\<exists>sl'. map_of ((s(a := dict_set (s a) k sl)) r) k' = Some sl' \<and> slot_le x sl'"
  proof (cases "r = a \<and> k' = k")
    case True
    with l assms show ?thesis by (simp add: map_of_dict_set)
  next
    case False
    with l show ?thesis by (auto simp: map_of_dict_set slot_le_refl)
  qed
qed

lemma merge_dicts_at_le: "merge_dicts_at s a b path = (s', r) \<Longrightarrow> store_le s s'"
proof (induction s a b path arbitrary: s' r rule: merge_dicts_at.induct)
  case (1 s a path)
  then show ?case by (simp add: store_le_refl)
next
  case (2 s a k vb b path)
  show ?case
  proof (cases "map_of (s a) k")
    case None
    with "2.prems" have m: "merge_dicts_at (s(a := dict_set (s a) k (Val vb))) a b path = (s', r)"
      by simp
    have st: "store_le s (s(a := dict_set (s a) k (Val vb)))"
      by (rule store_le_upd) (simp add: None)
    from st "2.IH"(1)[OF None m] show ?thesis by (rule store_le_trans)
  next
    case (Some sl)
    show ?thesis
    proof (cases sl)
      case (Ref q)
      show ?thesis
      proof (cases "is_dict vb")
        case True
        obtain s1 r1 where inner: "merge_dicts_at s q (the_dict vb) (path @ [str_of_key k]) = (s1, r1)"
          by (cases "merge_dicts_at s q (the_dict vb) (path @ [str_of_key k])")
        from "2.IH"(4)[OF Some Ref True inner] have st: "store_le s s1" .
        show ?thesis
        proof (cases r1)
          case (Inl e)
          with "2.prems" Some Ref True inner have "s' = s1" by simp
          with st show ?thesis by simp
        next
          case (Inr x)
          with "2.prems" Some Ref True inner have m: "merge_dicts_at s1 a b path = (s', r)" by simp
          from st "2.IH"(5)[OF Some Ref True inner[symmetric] Inr m] show ?thesis
            by (rule store_le_trans)
        qed
      next
        case False
        with "2.prems" Some Ref have "s' = s" by simp
        then show ?thesis by (simp add: store_le_refl)
      qed
    next
      case (Val va)
      show ?thesis
      proof (cases "is_dict va \<and> is_dict vb")
        case True
        obtain da r' where inner: "merge_dicts (the_dict va) (the_dict vb) (path @ [str_of_key k]) = (da, r')"
          by (cases "merge_dicts (the_dict va) (the_dict vb) (path @ [str_of_key k])")
        from merge_dicts_json_le[OF inner] True have "json_le va (JDict da)"
          by (simp add: is_dict_the_dict)
        then have st: "store_le s (s(a := dict_set (s a) k (Val (JDict da))))"
          by (intro store_le_upd) (simp add: Some Val)
        show ?thesis
        proof (cases r')
          case None
          with "2.prems" Some Val True inner
          have m: "merge_dicts_at (s(a := dict_set (s a) k (Val (JDict da)))) a b path = (s', r)"
            by simp
          from st "2.IH"(2)[OF Some Val True inner[symmetric] None m] show ?thesis
            by (rule store_le_trans)
        next
          case (Some e)
          with "2.prems" \<open>map_of (s a) k = Some sl\<close> Val True inner
          have s': "s' = s(a := dict_set (s a) k (Val (JDict da)))" by simp
          show ?thesis unfolding s' by (rule st)
        qed
      next
        case False
        show ?thesis
        proof (cases "py_eq va vb")
          case True
          with "2.prems" Some Val False have m: "merge_dicts_at s a b path = (s', r)" by auto
          from "2.IH"(3)[OF Some Val False True m] show ?thesis .
        next
          case neq: False
          with "2.prems" Some Val False have "s' = s" by auto
          then show ?thesis by (simp add: store_le_refl)
        qed
      qed
    qed
  qed
qed

lemma merge_dicts_at_step:
  assumes knb: "k \<notin> fst ` set b"
    and head: "list_all (written s1 a ((k, vb) # b)) ([k] # map ((#) k) (all_paths vb))"
    and rest: "merge_dicts_at s1 a b path = (s', r)"
    and ih: "case r of
        Inr x \<Rightarrow> x = a \<and> list_all (written s' a b) (all_paths (JDict b))
      | Inl e \<Rightarrow> \<exists>cs. conflict_in s' a b cs \<and> e = Conflict (join ''.'' (path @ map str_of_key cs)) \<and>
                      list_all (written s' a b) (walked_before b cs)"
  shows "case r of
        Inr x \<Rightarrow> x = a \<and> list_all (written s' a ((k, vb) # b)) (all_paths (JDict ((k, vb) # b)))
      | Inl e \<Rightarrow> \<exists>cs. conflict_in s' a ((k, vb) # b) cs \<and> e = Conflict (join ''.'' (path @ map str_of_key cs)) \<and>
                      list_all (written s' a ((k, vb) # b)) (walked_before ((k, vb) # b) cs)"
proof -
  from merge_dicts_at_le[OF rest] head
  have head': "list_all (written s' a ((k, vb) # b)) ([k] # map ((#) k) (all_paths vb))"
    by (auto simp: list_all_iff intro: written_mono)
  have tail: "written s' a ((k, vb) # b) ks"
    if "written s' a b ks" "ks \<noteq> []" "hd ks \<in> fst ` set b" for ks
    using that knb by (subst written_tail) auto
  show ?thesis
  proof (cases r)
    case (Inr x)
    with ih have x: "x = a" and "list_all (written s' a b) (all_paths (JDict b))" by simp_all
    then have "list_all (written s' a ((k, vb) # b)) (all_paths (JDict b))"
      unfolding list_all_iff using tail all_paths_hd by blast
    with head' Inr x show ?thesis
      unfolding all_paths_Cons by simp
  next
    case (Inl e)
    with ih obtain cs where c: "conflict_in s' a b cs"
      and e: "e = Conflict (join ''.'' (path @ map str_of_key cs))"
      and w: "list_all (written s' a b) (walked_before b cs)"
      by auto
    from conflict_in_keys[OF c] knb have ne: "hd cs \<noteq> k" by auto
    from c obtain c1 cs1 where cs: "cs = c1 # cs1" by (cases cs) (auto simp: conflict_in_def)
    from w have "list_all (written s' a ((k, vb) # b)) (walked_before b cs)"
      unfolding list_all_iff using tail walked_before_hd by blast
    with head' ne cs
    have "list_all (written s' a ((k, vb) # b)) (walked_before ((k, vb) # b) cs)"
      unfolding cs walked_before_Cons by simp
    with conflict_in_tail[OF c knb] e Inl show ?thesis by auto
  qed
qed

lemma merge_dicts_at_written:
  "wf_dict b \<Longrightarrow> merge_dicts_at s a b path = (s', r) \<Longrightarrow>
   (case r of
      Inr x \<Rightarrow> x = a \<and> list_all (written s' a b) (all_paths (JDict b))
    | Inl e \<Rightarrow> \<exists>cs. conflict_in s' a b cs \<and> e = Conflict (join ''.'' (path @ map str_of_key cs)) \<and>
                    list_all (written s' a b) (walked_before b cs))"
proof (induction s a b path arbitrary: s' r rule: merge_dicts_at.induct)
  case (1 s a path)
  then show ?case by auto
next
  case (2 s a k vb b path)
  from "2.prems"(1) have knb: "k \<notin> fst ` set b" and wfv: "wf_json vb" and wfb: "wf_dict b"
    by (auto simp: wf_dict_Cons)
  show ?case
  proof (cases "map_of (s a) k")
    case None
    with "2.prems"(2)
    have m: "merge_dicts_at (s(a := dict_set (s a) k (Val vb))) a b path = (s', r)" by simp
    have head: "list_all (written (s(a := dict_set (s a) k (Val vb))) a ((k, vb) # b))
                  ([k] # map ((#) k) (all_paths vb))"
      using all_paths_lookup[OF wfv]
      by (auto simp: list_all_iff written_key map_of_dict_set slot_at_Val_holds holds_at_Nil
          merged_in_refl intro!: holds_at_refl)
    from knb head m "2.IH"(1)[OF None wfb m] show ?thesis by (rule merge_dicts_at_step)
  next
    case (Some sl)
    show ?thesis
    proof (cases sl)
      case (Ref q)
      show ?thesis
      proof (cases "is_dict vb")
        case True
        obtain s1 r1 where inner: "merge_dicts_at s q (the_dict vb) (path @ [str_of_key k]) = (s1, r1)"
          by (cases "merge_dicts_at s q (the_dict vb) (path @ [str_of_key k])")
        note ih = "2.IH"(4)[OF Some Ref True wf_dict_the_dict[OF wfv] inner]
        from merge_dicts_at_le[OF inner] Some Ref have look: "map_of (s1 a) k = Some (Ref q)"
          unfolding store_le_def by fastforce
        show ?thesis
        proof (cases r1)
          case (Inr x)
          with "2.prems"(2) Some Ref True inner have m: "merge_dicts_at s1 a b path = (s', r)" by simp
          from ih Inr have "list_all (written s1 q (the_dict vb)) (all_paths vb)"
            by (simp only: all_paths_the_dict sum.case)
          with True have "\<forall>x \<in> set (all_paths vb). slot_at slot_holds s1 (Ref q) vb x"
            by (simp add: list_all_iff written_def slot_at_the_dict)
          with True look
          have head: "list_all (written s1 a ((k, vb) # b)) ([k] # map ((#) k) (all_paths vb))"
            by (auto simp: list_all_iff written_key slot_at_Nil)
          from knb head m "2.IH"(5)[OF Some Ref True inner[symmetric] Inr wfb m]
          show ?thesis by (rule merge_dicts_at_step)
        next
          case (Inl e)
          with "2.prems"(2) Some Ref True inner have s': "s' = s1" and r: "r = Inl e" by simp_all
          from ih Inl obtain cs where c: "conflict_in s1 q (the_dict vb) cs"
            and e: "e = Conflict (join ''.'' ((path @ [str_of_key k]) @ map str_of_key cs))"
            and w: "list_all (written s1 q (the_dict vb)) (walked_before (the_dict vb) cs)"
            by auto
          from c True look have c': "conflict_in s' a ((k, vb) # b) (k # cs)"
            by (simp add: conflict_in_key s') (simp add: conflict_in_def slot_at_the_dict)
          from w True have "\<forall>x \<in> set (walked_before (the_dict vb) cs). slot_at slot_holds s1 (Ref q) vb x"
            by (simp add: list_all_iff written_def slot_at_the_dict)
          with look have "list_all (written s' a ((k, vb) # b)) (walked_before ((k, vb) # b) (k # cs))"
            unfolding walked_before_Cons
            by (auto simp: list_all_iff written_key s')
          with c' e r show ?thesis by (auto intro!: exI[of _ "k # cs"])
        qed
      next
        case False
        with "2.prems"(2) Some Ref
        have s': "s' = s" and r: "r = Inl (Conflict (join ''.'' (path @ [str_of_key k])))" by auto
        from Some Ref False have "conflict_in s a ((k, vb) # b) [k]"
          by (simp add: conflict_in_key slot_at_Nil)
        with s' r show ?thesis
          by (auto intro!: exI[of _ "[k]"])
      qed
    next
      case (Val va)
      show ?thesis
      proof (cases "is_dict va \<and> is_dict vb")
        case True
        obtain da r' where inner: "merge_dicts (the_dict va) (the_dict vb) (path @ [str_of_key k]) = (da, r')"
          by (cases "merge_dicts (the_dict va) (the_dict vb) (path @ [str_of_key k])")
        note ih = merge_dicts_written[OF wf_dict_the_dict[OF wfv] inner]
        let ?s1 = "s(a := dict_set (s a) k (Val (JDict da)))"
        show ?thesis
        proof (cases r')
          case None
          with "2.prems"(2) Some Val True inner
          have m: "merge_dicts_at ?s1 a b path = (s', r)" by simp
          from ih None have "list_all (written_in da (the_dict vb)) (all_paths vb)"
            by (simp only: all_paths_the_dict option.case)
          with True have "\<forall>x \<in> set (all_paths vb). holds_at (JDict da) vb x"
            by (simp add: list_all_iff written_in_def holds_at_the_dict)
          with True
          have head: "list_all (written ?s1 a ((k, vb) # b)) ([k] # map ((#) k) (all_paths vb))"
            by (auto simp: list_all_iff written_key map_of_dict_set slot_at_Val_holds holds_at_Nil
                merged_in_def)
          from knb head m "2.IH"(2)[OF Some Val True inner[symmetric] None wfb m]
          show ?thesis by (rule merge_dicts_at_step)
        next
          case (Some e)
          with "2.prems"(2) \<open>map_of (s a) k = Some sl\<close> Val True inner
          have s': "s' = ?s1" and r: "r = Inl e" by simp_all
          from ih Some obtain cs where c: "conflict_at da (the_dict vb) cs"
            and e: "e = Conflict (join ''.'' ((path @ [str_of_key k]) @ map str_of_key cs))"
            and w: "list_all (written_in da (the_dict vb)) (walked_before (the_dict vb) cs)"
            by auto
          from c have ne: "cs \<noteq> []" by auto
          from slot_at_Val_conflicts[OF ne, of s' da "the_dict vb"] c True
          have "slot_at slot_conflicts s' (Val (JDict da)) vb cs"
            by (simp add: is_dict_the_dict)
          then have c': "conflict_in s' a ((k, vb) # b) (k # cs)"
            by (simp add: conflict_in_key s' map_of_dict_set)
          from w True have "\<forall>x \<in> set (walked_before (the_dict vb) cs). holds_at (JDict da) vb x"
            by (simp add: list_all_iff written_in_def holds_at_the_dict)
          then have "list_all (written s' a ((k, vb) # b)) (walked_before ((k, vb) # b) (k # cs))"
            unfolding walked_before_Cons
            by (auto simp: list_all_iff written_key s' map_of_dict_set slot_at_Val_holds)
          with c' e r show ?thesis by (auto intro!: exI[of _ "k # cs"])
        qed
      next
        case False
        show ?thesis
        proof (cases "py_eq va vb")
          case True
          with "2.prems"(2) Some Val False have m: "merge_dicts_at s a b path = (s', r)" by auto
          from True False have nd: "\<not> is_dict vb" by (auto dest: py_eq_is_dict)
          then have "all_paths vb = []" by (cases vb) auto
          with Some Val True nd
          have head: "list_all (written s a ((k, vb) # b)) ([k] # map ((#) k) (all_paths vb))"
            by (simp add: written_key slot_at_Val_holds holds_at_Nil merged_in_def)
          from knb head m "2.IH"(3)[OF Some Val False True wfb m]
          show ?thesis by (rule merge_dicts_at_step)
        next
          case neq: False
          with "2.prems"(2) Some Val False
          have s': "s' = s" and r: "r = Inl (Conflict (join ''.'' (path @ [str_of_key k])))" by auto
          from Some Val False neq have "conflict_in s a ((k, vb) # b) [k]"
            by (simp add: conflict_in_key slot_at_Nil)
          with s' r show ?thesis
            by (auto intro!: exI[of _ "[k]"])
        qed
      qed
    qed
  qed
qed

lemma map_of_by_value: "map_of (by_value d) k = map_option Val (map_of d k)"
  by (induction d) (auto simp: by_value_def)

lemma dict_set_by_value: "dict_set (by_value d) k (Val v) = by_value (dict_set d k v)"
  by (induction d) (auto simp: by_value_def)

lemma merge_dicts_at_by_value:
  "merge_dicts_at (s(a := by_value d)) a b path =
     (case merge_dicts d b path of
        (d', r) \<Rightarrow> (s(a := by_value d'), case r of None \<Rightarrow> Inr a | Some e \<Rightarrow> Inl e))"
proof (induction d b path rule: merge_dicts.induct)
  case (1 d path)
  then show ?case by simp
next
  case (2 d k vb b path)
  show ?case
  proof (cases "map_of d k")
    case None
    with "2.IH"(1)[OF None] show ?thesis
      by (simp add: map_of_by_value dict_set_by_value fun_upd_same del: fun_upd_apply)
  next
    case (Some va)
    show ?thesis
    proof (cases "is_dict va \<and> is_dict vb")
      case True
      obtain da r' where inner: "merge_dicts (the_dict va) (the_dict vb) (path @ [str_of_key k]) = (da, r')"
        by (cases "merge_dicts (the_dict va) (the_dict vb) (path @ [str_of_key k])")
      show ?thesis
      proof (cases r')
        case None
        with "2.IH"(3)[OF Some True inner[symmetric] None] Some True inner show ?thesis
          by (simp add: map_of_by_value dict_set_by_value fun_upd_same del: fun_upd_apply)
      next
        case (Some e)
        with \<open>map_of d k = Some va\<close> True inner show ?thesis
          by (simp add: map_of_by_value dict_set_by_value fun_upd_same del: fun_upd_apply)
      qed
    next
      case False
      show ?thesis
      proof (cases "py_eq va vb")
        case True
        with "2.IH"(4)[OF Some False True] Some False show ?thesis
          by (auto simp: map_of_by_value fun_upd_same simp del: fun_upd_apply)
      next
        case neq: False
        with Some False show ?thesis
          by (auto simp: map_of_by_value fun_upd_same simp del: fun_upd_apply)
      qed
    qed
  qed
qed

subsection \<open>The claims about \<^verbatim>\<open>merge_dicts\<close>\<close>






text \<open>
  Claim C10. \<^verbatim>\<open>merge_dicts(a, b)\<close> works on the object \<^verbatim>\<open>a\<close> itself and not on a copy. When it
  returns, what it returns is the reference \<open>a\<close> it was given, and in the store it leaves
  every key path of \<open>b\<close> is written in the object at \<open>a\<close>. A raise does not undo what the
  call has done: the exception names a key path \<open>cs\<close> at which the object at \<open>a\<close> and \<open>b\<close>
  conflict, and in the store the call leaves every key path of \<open>b\<close> walked before \<open>cs\<close>, at
  any depth, is written in the object at \<open>a\<close>, which the caller finds partly merged.
  (\<open>merge_dicts_at_by_value\<close>: for a document held by value the call is \<open>merge_dicts\<close>, as
  \<^verbatim>\<open>convert\<close> uses it on the generated document and the overlay.)
\<close>

theorem merge_dicts_in_place:
  assumes "wf_dict b" and "merge_dicts_at s a b path = (s', r)"
  shows "case r of
      Inr x \<Rightarrow> x = a \<and> list_all (written s' a b) (all_paths (JDict b))
    | Inl e \<Rightarrow> \<exists>cs. conflict_in s' a b cs \<and> e = Conflict (join ''.'' (path @ map str_of_key cs)) \<and>
                    list_all (written s' a b) (walked_before b cs)"
  using assms by (rule merge_dicts_at_written)

theorem merge_dicts_in_place_witness:
  "wf_dict example_overlay \<and>
   snd (merge_dicts_at example_store 0 example_overlay []) = Inl (Conflict ''n.p'') \<and>
   fst (merge_dicts_at example_store 0 example_overlay []) 0 =
     [(KStr ''x'', Val (JInt 1)), (KStr ''n'', Ref 1), (KStr ''y'', Val (JInt 2))] \<and>
   fst (merge_dicts_at example_store 0 example_overlay []) 1 =
     [(KStr ''p'', Val (JBool True)), (KStr ''q'', Val (JInt 5))] \<and>
   (\<exists>cs. conflict_in (fst (merge_dicts_at example_store 0 example_overlay [])) 0 example_overlay cs \<and>
      Conflict ''n.p'' = Conflict (join ''.'' ([] @ map str_of_key cs)) \<and>
      list_all (written (fst (merge_dicts_at example_store 0 example_overlay [])) 0 example_overlay)
        (walked_before example_overlay cs)) \<and>
   walked_before example_overlay [KStr ''n'', KStr ''p''] = [[KStr ''y''], [KStr ''n'', KStr ''q'']] \<and>
   wf_dict [(KStr ''y'', JInt 2), (KStr ''n'', JDict [(KStr ''q'', JInt 5)])] \<and>
   snd (merge_dicts_at example_store 0
          [(KStr ''y'', JInt 2), (KStr ''n'', JDict [(KStr ''q'', JInt 5)])] []) = Inr 0 \<and>
   fst (merge_dicts_at example_store 0
          [(KStr ''y'', JInt 2), (KStr ''n'', JDict [(KStr ''q'', JInt 5)])] []) 0 =
     [(KStr ''x'', Val (JInt 1)), (KStr ''n'', Ref 1), (KStr ''y'', Val (JInt 2))] \<and>
   fst (merge_dicts_at example_store 0
          [(KStr ''y'', JInt 2), (KStr ''n'', JDict [(KStr ''q'', JInt 5)])] []) 1 =
     [(KStr ''p'', Val (JBool True)), (KStr ''q'', Val (JInt 5))] \<and>
   list_all
     (written (fst (merge_dicts_at example_store 0
                 [(KStr ''y'', JInt 2), (KStr ''n'', JDict [(KStr ''q'', JInt 5)])] [])) 0
        [(KStr ''y'', JInt 2), (KStr ''n'', JDict [(KStr ''q'', JInt 5)])])
     [[KStr ''y''], [KStr ''n''], [KStr ''n'', KStr ''q'']]"
proof -
  let ?m = "merge_dicts_at example_store 0 example_overlay []"
  have w: "wf_dict example_overlay"
    by (simp add: example_overlay_def wf_dict_def)
  have m: "?m = (fst ?m, snd ?m)"
    by simp
  have r: "snd ?m = Inl (Conflict ''n.p'')"
    by (simp add: example_store_def example_overlay_def py_eq_def)
  have s0: "fst ?m 0 = [(KStr ''x'', Val (JInt 1)), (KStr ''n'', Ref 1), (KStr ''y'', Val (JInt 2))]"
    by (simp add: example_store_def example_overlay_def py_eq_def)
  have s1: "fst ?m 1 = [(KStr ''p'', Val (JBool True)), (KStr ''q'', Val (JInt 5))]"
    by (simp add: example_store_def example_overlay_def py_eq_def)
  have b: "walked_before example_overlay [KStr ''n'', KStr ''p''] =
             [[KStr ''y''], [KStr ''n'', KStr ''q'']]"
    by (simp add: example_overlay_def)
  from merge_dicts_in_place[OF w m] r
  have c: "\<exists>cs. conflict_in (fst ?m) 0 example_overlay cs \<and>
      Conflict ''n.p'' = Conflict (join ''.'' ([] @ map str_of_key cs)) \<and>
      list_all (written (fst ?m) 0 example_overlay) (walked_before example_overlay cs)"
    by simp
  let ?b = "[(KStr ''y'', JInt 2), (KStr ''n'', JDict [(KStr ''q'', JInt 5)])]"
  let ?n = "merge_dicts_at example_store 0 ?b []"
  have w2: "wf_dict ?b"
    by (simp add: wf_dict_def)
  have n: "?n = (fst ?n, snd ?n)"
    by simp
  have r2: "snd ?n = Inr 0"
    by (simp add: example_store_def)
  have t0: "fst ?n 0 = [(KStr ''x'', Val (JInt 1)), (KStr ''n'', Ref 1), (KStr ''y'', Val (JInt 2))]"
    by (simp add: example_store_def)
  have t1: "fst ?n 1 = [(KStr ''p'', Val (JBool True)), (KStr ''q'', Val (JInt 5))]"
    by (simp add: example_store_def)
  from merge_dicts_in_place[OF w2 n] r2
  have d: "list_all (written (fst ?n) 0 ?b) [[KStr ''y''], [KStr ''n''], [KStr ''n'', KStr ''q'']]"
    by simp
  from w r s0 s1 c b w2 r2 t0 t1 d show ?thesis
    by (intro conjI)
qed

section \<open>Properties of the converter\<close>

subsection \<open>Types and parameters\<close>

lemma split_on_length: "length (split_on c s) = Suc (length (filter (\<lambda>x. x = c) s))"
  by (induction s) (auto split: list.splits)

lemma xsd_to_json_type_None: "xsd_to_json_type None = Inr None"
  by (simp add: xsd_to_json_type_def)

lemma xsd_to_json_type_raises_iff:
  "(\<exists>e. xsd_to_json_type (Some ft) = Inl e) \<longleftrightarrow> 2 \<le> length (filter (\<lambda>x. x = CHR '':'') ft)"
proof -
  have len: "length (split_on CHR '':'' ft) = Suc (length (filter (\<lambda>x. x = CHR '':'') ft))"
    by (rule split_on_length)
  have mem: "CHR '':'' \<in> set ft \<longleftrightarrow> 1 \<le> length (filter (\<lambda>x. x = CHR '':'') ft)"
    by (induction ft) auto
  show ?thesis
  proof (cases "CHR '':'' \<in> set ft")
    case False
    with mem show ?thesis
      by (auto simp: xsd_to_json_type_def split: option.splits)
  next
    case True
    show ?thesis
    proof (cases "split_on CHR '':'' ft")
      case Nil
      with len show ?thesis by simp
    next
      case (Cons p ps)
      show ?thesis
      proof (cases ps)
        case Nil
        with Cons len mem True show ?thesis by simp
      next
        case ps: (Cons q qs)
        show ?thesis
        proof (cases qs)
          case Nil
          with Cons ps len True show ?thesis
            by (auto simp: xsd_to_json_type_def split: option.splits)
        next
          case (Cons r rs)
          with \<open>split_on CHR '':'' ft = p # ps\<close> ps len True show ?thesis
            by (auto simp: xsd_to_json_type_def split: option.splits)
        qed
      qed
    qed
  qed
qed

lemma typemap_fragment:
  "map_of typemap ns = Some types \<Longrightarrow> map_of types x = Some j \<Longrightarrow> j \<in> set type_fragments"
  unfolding type_fragments_def
  by (force dest!: map_of_SomeD)

lemma xsd_to_json_type_fragment:
  "xsd_to_json_type t = Inr (Some j) \<Longrightarrow> j \<in> set type_fragments"
  unfolding xsd_to_json_type_def
  by (auto split: option.splits if_splits list.splits elim: typemap_fragment)

lemma type_fragments_keys:
  "j \<in> set type_fragments \<Longrightarrow> is_dict j \<Longrightarrow> fst ` set (the_dict j) \<subseteq> {KStr ''type'', KStr ''format''}"
  by (auto simp: type_fragments_def typemap_def)

lemma map_of_dict_update_other:
  "k \<notin> fst ` set e \<Longrightarrow> map_of (dict_update d e) k = map_of d k"
  by (induction d e rule: dict_update.induct) (auto simp: map_of_dict_set)

lemma typed_param_lookup:
  assumes "xsd_to_json_type ty = Inr mapped" and "\<not> is_dict fb"
    and "k = KStr ''in'' \<or> k = KStr ''required''"
  shows "map_of (if is_dict (case mapped of None \<Rightarrow> fb | Some t \<Rightarrow> t)
                 then dict_update d (the_dict (case mapped of None \<Rightarrow> fb | Some t \<Rightarrow> t))
                 else dict_set d (KStr ''type'') (case mapped of None \<Rightarrow> fb | Some t \<Rightarrow> t)) k
         = map_of d k"
proof (cases mapped)
  case None
  with assms show ?thesis by (auto simp: map_of_dict_set)
next
  case (Some t)
  with assms(1) have "t \<in> set type_fragments" by (auto dest: xsd_to_json_type_fragment)
  from type_fragments_keys[OF this] assms(3) have "is_dict t \<Longrightarrow> k \<notin> fst ` set (the_dict t)"
    by auto
  with Some assms(3) show ?thesis
    by (auto simp: map_of_dict_set map_of_dict_update_other)
qed

lemma build_param_unfold:
  assumes "style_to_in (style p) = Inr loc"
    and "xsd_to_json_type (Some (case type_attr p of None \<Rightarrow> ''string'' | Some t \<Rightarrow> t)) = Inr mapped"
  shows "\<exists>param1.
      map_of param1 (KStr ''in'') = Some (JStr loc) \<and>
      map_of param1 (KStr ''required'') = Some (JBool (is_required p)) \<and>
      build_param opts p =
        (if autofix opts \<and> map_of param1 (KStr ''in'') = Some (JStr ''body'') then Inr None
         else
           (let param2 = (if autofix opts
                             \<and> map_of param1 (KStr ''in'') = Some (JStr ''path'')
                             \<and> map_of param1 (KStr ''required'') \<noteq> Some (JBool True)
                          then dict_set param1 (KStr ''required'') (JBool True)
                          else param1);
                param3 = (if \<not> nodoc opts then
                            (case doc_markdown p of
                               Some description \<Rightarrow>
                                 dict_set param2 (KStr ''description'') (JStr description)
                             | None \<Rightarrow> param2)
                          else param2)
            in Inr (Some param3)))"
proof -
  let ?ty = "case type_attr p of None \<Rightarrow> ''string'' | Some t \<Rightarrow> t"
  let ?jt = "case mapped of None \<Rightarrow> (if autofix opts then JStr ''string'' else JStr ?ty) | Some t \<Rightarrow> t"
  let ?p0 = "[(KStr ''name'', JStr (param_name p)), (KStr ''required'', JBool (is_required p)),
              (KStr ''in'', JStr loc)]"
  let ?p1 = "if is_dict ?jt then dict_update ?p0 (the_dict ?jt) else dict_set ?p0 (KStr ''type'') ?jt"
  have fb: "\<not> is_dict (if autofix opts then JStr ''string'' else JStr ?ty)"
    by simp
  have "map_of ?p1 (KStr ''in'') = map_of ?p0 (KStr ''in'')"
    by (rule typed_param_lookup[OF assms(2) fb]) simp
  then have in1: "map_of ?p1 (KStr ''in'') = Some (JStr loc)" by simp
  have "map_of ?p1 (KStr ''required'') = map_of ?p0 (KStr ''required'')"
    by (rule typed_param_lookup[OF assms(2) fb]) simp
  then have req1: "map_of ?p1 (KStr ''required'') = Some (JBool (is_required p))" by simp
  have eq: "build_param opts p =
        (if autofix opts \<and> map_of ?p1 (KStr ''in'') = Some (JStr ''body'') then Inr None
         else
           (let param2 = (if autofix opts
                             \<and> map_of ?p1 (KStr ''in'') = Some (JStr ''path'')
                             \<and> map_of ?p1 (KStr ''required'') \<noteq> Some (JBool True)
                          then dict_set ?p1 (KStr ''required'') (JBool True)
                          else ?p1);
                param3 = (if \<not> nodoc opts then
                            (case doc_markdown p of
                               Some description \<Rightarrow>
                                 dict_set param2 (KStr ''description'') (JStr description)
                             | None \<Rightarrow> param2)
                          else param2)
            in Inr (Some param3)))"
    unfolding build_param_def Let_def
    by (simp only: assms sum.case)
  from in1 req1 eq show ?thesis by blast
qed

lemma build_param_in_required:
  assumes "build_param opts p = Inr (Some param)"
  shows "\<exists>loc. style_to_in (style p) = Inr loc \<and> \<not> (autofix opts \<and> loc = ''body'') \<and>
           map_of param (KStr ''in'') = Some (JStr loc) \<and>
           map_of param (KStr ''required'') =
             Some (JBool (is_required p \<or> (autofix opts \<and> loc = ''path'')))"
proof -
  from assms obtain loc where loc: "style_to_in (style p) = Inr loc"
    by (auto simp: build_param_def split: sum.splits)
  from assms loc obtain mapped where
    mapped: "xsd_to_json_type (Some (case type_attr p of None \<Rightarrow> ''string'' | Some t \<Rightarrow> t)) = Inr mapped"
    by (auto simp: build_param_def Let_def split: sum.splits)
  from build_param_unfold[OF loc mapped, of opts] obtain param1 where
    "map_of param1 (KStr ''in'') = Some (JStr loc)"
    "map_of param1 (KStr ''required'') = Some (JBool (is_required p))"
    "build_param opts p =
        (if autofix opts \<and> map_of param1 (KStr ''in'') = Some (JStr ''body'') then Inr None
         else
           (let param2 = (if autofix opts
                             \<and> map_of param1 (KStr ''in'') = Some (JStr ''path'')
                             \<and> map_of param1 (KStr ''required'') \<noteq> Some (JBool True)
                          then dict_set param1 (KStr ''required'') (JBool True)
                          else param1);
                param3 = (if \<not> nodoc opts then
                            (case doc_markdown p of
                               Some description \<Rightarrow>
                                 dict_set param2 (KStr ''description'') (JStr description)
                             | None \<Rightarrow> param2)
                          else param2)
            in Inr (Some param3)))"
    by blast
  with assms loc show ?thesis
    by (auto simp: Let_def map_of_dict_set split: if_splits option.splits)
qed

lemma build_param_body:
  assumes "autofix opts" and "style p = Some ''plain''"
    and "xsd_to_json_type (Some (case type_attr p of None \<Rightarrow> ''string'' | Some t \<Rightarrow> t)) = Inr mapped"
  shows "build_param opts p = Inr None"
proof -
  from assms(2) have loc: "style_to_in (style p) = Inr ''body''"
    by (simp add: style_to_in_def)
  from build_param_unfold[OF loc assms(3), of opts] assms(1) show ?thesis
    by auto
qed

subsection \<open>Code samples and responses\<close>

lemma dict_set_twice: "dict_set (dict_set d k v) k w = dict_set d k w"
  by (induction d) auto

lemma header_match_Some:
  "header_match bol s = Some g \<Longrightarrow>
   \<exists>pre c cs. s = pre @ g \<and> g = c # cs \<and> (if pre = [] then bol else last pre = CHR 0x0A) \<and>
     (c = CHR ''{'' \<or> c = CHR ''['') \<and> header_match False cs = None"
proof (induction s arbitrary: bol)
  case Nil
  then show ?case by simp
next
  case (Cons c cs)
  show ?case
  proof (cases "header_match (c = CHR 0x0A) cs")
    case None
    with Cons.prems have g: "g = c # cs" and b: bol and c: "c = CHR ''{'' \<or> c = CHR ''[''"
      by (auto split: if_splits)
    from c have "c \<noteq> CHR 0x0A" by auto
    with None have "header_match False cs = None" by simp
    with g b c show ?thesis by (intro exI[of _ "[]"]) auto
  next
    case (Some g')
    with Cons.prems have "g' = g" by simp
    with Some Cons.IH[of "c = CHR 0x0A"] obtain pre c' cs' where
      p: "cs = pre @ g" "g = c' # cs'" "if pre = [] then c = CHR 0x0A else last pre = CHR 0x0A"
        "c' = CHR ''{'' \<or> c' = CHR ''[''" "header_match False cs' = None"
      by blast
    show ?thesis
      by (rule exI[of _ "c # pre"]) (use p in \<open>auto split: if_splits\<close>)
  qed
qed

lemma build_response_Inr:
  "status_attr r = Some st \<Longrightarrow>
   build_response py r = Inr [(KStr ''description'',
      JStr (case doc_text r of None \<Rightarrow> st @ '' response'' | Some text \<Rightarrow> join '' '' (py_split py text)))]"
  by (simp add: build_response_def split: option.splits)

lemma fix_json_recovered:
  assumes "autofix opts" and "loads py s = None"
    and "header_match True s = Some g" and "loads py g = Some d"
  shows "fix_json opts py s = Inr g"
  using assms by (simp add: fix_json_def)

lemma convert_status_attach:
  assumes "py_int py status = Some code" and "status_attr r = Some st"
    and "code_samples r \<noteq> []" and "last (code_samples r) = Some s"
    and "fix_json opts py s = Inr g" and "g \<noteq> []"
  shows "convert_status opts py file summary r responses status =
     Inr (dict_set responses (KInt code)
       (JDict [(KStr ''description'',
                JStr (case doc_text r of None \<Rightarrow> st @ '' response'' | Some text \<Rightarrow> join '' '' (py_split py text))),
               (KStr ''examples'', JDict (build_code_sample py g))]))"
  using assms
  by (simp add: convert_status_def build_response_Inr Let_def dict_set_twice)

lemma convert_status_strict_abort:
  assumes "strict opts" and "py_int py status = Some code" and "status_attr r = Some st"
    and "code_samples r \<noteq> []" and "last (code_samples r) = Some s"
    and "fix_json opts py s = Inl e"
  shows "convert_status opts py file summary r responses status =
     Inl (WADLParseError ''Unparsable code sample'' file summary e)"
  using assms
  by (simp add: convert_status_def build_response_Inr Let_def)

lemma fix_json_raises_iff:
  "(\<exists>e. fix_json opts py s = Inl e) \<longleftrightarrow>
     loads py s = None \<and>
     (if autofix opts then \<exists>g. header_match True s = Some g \<and> loads py g = None else True)"
  by (auto simp: fix_json_def split: option.splits)

lemma convert_status_lenient:
  assumes "\<not> strict opts" and "py_int py status = Some code" and "status_attr r = Some st"
    and "code_samples r \<noteq> []" and "last (code_samples r) = Some s"
    and "fix_json opts py s = Inl e" and "s \<noteq> []" and "loads py s = None"
  shows "convert_status opts py file summary r responses status =
     Inr (dict_set responses (KInt code)
       (JDict [(KStr ''description'',
                JStr (case doc_text r of None \<Rightarrow> st @ '' response'' | Some text \<Rightarrow> join '' '' (py_split py text))),
               (KStr ''examples'', JDict [])]))"
  using assms
  by (simp add: convert_status_def build_response_Inr Let_def dict_set_twice build_code_sample_def)

lemma header_match_prefix:
  "header_match (if pre = [] then bol else last pre = CHR 0x0A) g = Some g \<Longrightarrow>
   header_match bol (pre @ g) = Some g"
proof (induction pre arbitrary: bol)
  case Nil
  then show ?case by simp
next
  case (Cons x xs)
  from Cons.prems have "header_match (if xs = [] then x = CHR 0x0A else last xs = CHR 0x0A) g = Some g"
    by (simp split: if_splits)
  from Cons.IH[OF this] show ?case by simp
qed

lemma header_match_last_line_start:
  assumes "pre = [] \<or> last pre = CHR 0x0A" and "c = CHR ''{'' \<or> c = CHR ''[''"
    and "header_match False cs = None"
  shows "header_match True (pre @ c # cs) = Some (c # cs)"
proof (rule header_match_prefix)
  from assms(2) have "c \<noteq> CHR 0x0A" by auto
  with assms show "header_match (if pre = [] then True else last pre = CHR 0x0A) (c # cs) = Some (c # cs)"
    by auto
qed

lemma fix_json_no_match:
  assumes "autofix opts" and "loads py s = None" and "header_match True s = None"
  shows "fix_json opts py s = Inr s"
  using assms by (simp add: fix_json_def)

lemma convert_status_no_match:
  assumes "autofix opts" and "loads py s = None" and "header_match True s = None"
    and "py_int py status = Some code" and "status_attr r = Some st"
    and "code_samples r \<noteq> []" and "last (code_samples r) = Some s" and "s \<noteq> []"
  shows "convert_status opts py file summary r responses status =
     Inr (dict_set responses (KInt code)
       (JDict [(KStr ''description'',
                JStr (case doc_text r of None \<Rightarrow> st @ '' response'' | Some text \<Rightarrow> join '' '' (py_split py text))),
               (KStr ''examples'', JDict [])]))"
  using convert_status_attach[OF assms(4,5,6,7) fix_json_no_match[OF assms(1,2,3)] assms(8)] assms(2)
  by (simp add: build_code_sample_def)

lemma convert_status_description:
  assumes "convert_status opts py file summary r responses status = Inr responses'"
    and "status_attr r = Some st"
  defines "d \<equiv> (case doc_text r of None \<Rightarrow> st @ '' response'' | Some text \<Rightarrow> join '' '' (py_split py text))"
  shows "\<exists>code. py_int py status = Some code \<and> has_description responses' code d \<and>
           (\<forall>c. has_description responses c d \<longrightarrow> has_description responses' c d)"
proof -
  from assms(1) obtain code where code: "py_int py status = Some code"
    by (auto simp: convert_status_def split: option.splits)
  have br: "build_response py r = Inr [(KStr ''description'', JStr d)]"
    unfolding d_def using assms(2) by (rule build_response_Inr)
  from assms(1) code br
  have "responses' = dict_set responses (KInt code) (JDict [(KStr ''description'', JStr d)]) \<or>
        (\<exists>ex. responses' = dict_set responses (KInt code)
                 (JDict [(KStr ''description'', JStr d), (KStr ''examples'', ex)]))"
    by (auto simp: convert_status_def Let_def dict_set_twice split: option.splits if_splits sum.splits)
  then have "has_description responses' code d \<and>
           (\<forall>c. has_description responses c d \<longrightarrow> has_description responses' c d)"
    by (auto simp: has_description_def map_of_dict_set)
  with code show ?thesis by blast
qed

lemma convert_statuses_description_gen:
  assumes "convert_statuses opts py file summary r responses statuses = Inr responses'"
    and "status_attr r = Some st"
  defines "d \<equiv> (case doc_text r of None \<Rightarrow> st @ '' response'' | Some text \<Rightarrow> join '' '' (py_split py text))"
  shows "(\<forall>c. has_description responses c d \<longrightarrow> has_description responses' c d) \<and>
         (\<forall>t \<in> set statuses. \<exists>code. py_int py t = Some code \<and> has_description responses' code d)"
  using assms(1)
proof (induction statuses arbitrary: responses)
  case Nil
  then show ?case by simp
next
  case (Cons t ts)
  from Cons.prems obtain r1 where
    s1: "convert_status opts py file summary r responses t = Inr r1" and
    s2: "convert_statuses opts py file summary r r1 ts = Inr responses'"
    by (auto split: sum.splits)
  from convert_status_description[OF s1 assms(2)] obtain code where
    c: "py_int py t = Some code" "has_description r1 code d"
       "\<forall>c. has_description responses c d \<longrightarrow> has_description r1 c d"
    unfolding d_def by blast
  from Cons.IH[OF s2] have
    ih: "\<forall>c. has_description r1 c d \<longrightarrow> has_description responses' c d"
        "\<forall>t \<in> set ts. \<exists>code. py_int py t = Some code \<and> has_description responses' code d"
    by blast+
  from c ih show ?case by auto
qed

subsection \<open>The claims about types and parameters\<close>

text \<open>
  Claim C4. \<^verbatim>\<open>xsd_to_json_type\<close> gives the results the claim lists for \<^verbatim>\<open>xsd:int\<close>,
  \<^verbatim>\<open>csapi:UUID\<close>, \<^verbatim>\<open>None\<close> and \<^verbatim>\<open>bogus:Foo\<close>, but it is not total: on \<^verbatim>\<open>xsd:foo:bar\<close> the
  unpacking of the split raises \<^verbatim>\<open>ValueError\<close>. By \<open>xsd_to_json_type_raises_iff\<close> it raises
  exactly on the names with two or more colons.
\<close>

theorem xsd_to_json_type_two_colons:
  "xsd_to_json_type (Some ''xsd:foo:bar'') = Inl (ValueError ''xsd:foo:bar'') \<and>
   xsd_to_json_type (Some ''xsd:int'') = Inr (Some (JStr ''integer'')) \<and>
   xsd_to_json_type (Some ''csapi:UUID'') = Inr (Some (JDict [(KStr ''type'', JStr ''string'')])) \<and>
   xsd_to_json_type None = Inr None \<and>
   xsd_to_json_type (Some ''bogus:Foo'') = Inr None"
  by code_simp

text \<open>
  Claim C2, as the code has it. A parameter that \<^verbatim>\<open>build_param\<close> returns with location
  \<^verbatim>\<open>path\<close> is required when autofix is on; when autofix is off its flag is the source
  parameter's. The \<^verbatim>\<open>strict\<close> option plays no part.
\<close>

theorem build_param_path_required:
  assumes "build_param opts p = Inr (Some param)"
    and "map_of param (KStr ''in'') = Some (JStr ''path'')"
  shows "map_of param (KStr ''required'') = Some (JBool (autofix opts \<or> is_required p))"
proof -
  from build_param_in_required[OF assms(1)] obtain loc where
    "map_of param (KStr ''in'') = Some (JStr loc)"
    "map_of param (KStr ''required'') = Some (JBool (is_required p \<or> (autofix opts \<and> loc = ''path'')))"
    by blast
  with assms(2) show ?thesis by auto
qed

theorem build_param_path_required_witness:
  "build_param \<lparr>autofix = True, strict = False, nodoc = False\<rparr>
     \<lparr>param_name = ''id'', is_required = False, style = Some ''template'', type_attr = None,
      doc_markdown = None\<rparr> =
     Inr (Some [(KStr ''name'', JStr ''id''), (KStr ''required'', JBool True),
                (KStr ''in'', JStr ''path''), (KStr ''type'', JStr ''string'')]) \<and>
   map_of [(KStr ''name'', JStr ''id''), (KStr ''required'', JBool True),
           (KStr ''in'', JStr ''path''), (KStr ''type'', JStr ''string'')] (KStr ''in'') =
     Some (JStr ''path'') \<and>
   map_of [(KStr ''name'', JStr ''id''), (KStr ''required'', JBool True),
           (KStr ''in'', JStr ''path''), (KStr ''type'', JStr ''string'')] (KStr ''required'') =
     Some (JBool (autofix \<lparr>autofix = True, strict = False, nodoc = False\<rparr> \<or>
                  is_required \<lparr>param_name = ''id'', is_required = False, style = Some ''template'',
                                type_attr = None, doc_markdown = None\<rparr>))"
proof -
  have b: "build_param \<lparr>autofix = True, strict = False, nodoc = False\<rparr>
     \<lparr>param_name = ''id'', is_required = False, style = Some ''template'', type_attr = None,
      doc_markdown = None\<rparr> =
     Inr (Some [(KStr ''name'', JStr ''id''), (KStr ''required'', JBool True),
                (KStr ''in'', JStr ''path''), (KStr ''type'', JStr ''string'')])"
    by code_simp
  have l: "map_of [(KStr ''name'', JStr ''id''), (KStr ''required'', JBool True),
           (KStr ''in'', JStr ''path''), (KStr ''type'', JStr ''string'')] (KStr ''in'') =
     Some (JStr ''path'')"
    by simp
  from build_param_path_required[OF b l] b l show ?thesis by blast
qed

theorem build_param_path_not_required:
  "build_param \<lparr>autofix = False, strict = False, nodoc = False\<rparr>
     \<lparr>param_name = ''id'', is_required = False, style = Some ''template'', type_attr = None,
      doc_markdown = None\<rparr> =
   Inr (Some [(KStr ''name'', JStr ''id''), (KStr ''required'', JBool False),
              (KStr ''in'', JStr ''path''), (KStr ''type'', JStr ''string'')])"
  by code_simp

lemma add_params_body:
  assumes "autofix opts" and "style p = Some ''plain''"
    and "xsd_to_json_type (Some (case type_attr p of None \<Rightarrow> ''string'' | Some t \<Rightarrow> t)) = Inr mapped"
  shows "add_params opts (p # ps) target = add_params opts ps target"
  using build_param_body[OF assms] by simp

text \<open>
  Claim C7. With autofix on, a parameter of style \<^verbatim>\<open>plain\<close> is dropped (\<open>build_param_body\<close>,
  \<open>add_params_body\<close>) unless its declared type has two or more colons: the type is mapped
  before the location is looked at, and \<^verbatim>\<open>xsd_to_json_type\<close> raises on such a type. The
  \<^verbatim>\<open>ValueError\<close> leaves \<^verbatim>\<open>build_param\<close> and the loop over the parameters.
\<close>

theorem build_param_body_raises:
  "build_param \<lparr>autofix = True, strict = False, nodoc = False\<rparr>
     \<lparr>param_name = ''payload'', is_required = False, style = Some ''plain'',
      type_attr = Some ''a:b:c'', doc_markdown = None\<rparr> = Inl (ValueError ''a:b:c'') \<and>
   add_request_params \<lparr>autofix = True, strict = False, nodoc = False\<rparr>
     [[\<lparr>param_name = ''payload'', is_required = False, style = Some ''plain'',
        type_attr = Some ''a:b:c'', doc_markdown = None\<rparr>]] [] = Inl (ValueError ''a:b:c'')"
  by code_simp

subsection \<open>The claims about code samples and responses\<close>

text \<open>
  Claim C1. The response of \<open>example_wadl\<close> carries one sample, \<^verbatim>\<open>not json\<close>, which
  \<^verbatim>\<open>json.loads\<close> rejects and in which no line starts with \<^verbatim>\<open>{\<close> or \<^verbatim>\<open>[\<close>.
  \<^item> With autofix and strict both on, \<^verbatim>\<open>fix_json\<close> finds no match, returns the text as it
    is without raising, and \<^verbatim>\<open>convert\<close> does not abort (\<open>convert_status_no_match\<close> for every
    such sample).
  \<^item> With both off, \<^verbatim>\<open>fix_json\<close> raises, the error is logged, and \<^verbatim>\<open>code_sample\<close> still
    holds the raw text, so the response gets an \<^verbatim>\<open>examples\<close> key, with an empty mapping.
  \<^item> With autofix off and strict on, \<^verbatim>\<open>convert\<close> aborts with the wrapped parse error, as
    the claim says (\<open>convert_status_strict_abort\<close> whenever \<^verbatim>\<open>fix_json\<close> raises).
\<close>

theorem convert_unparsable_sample:
  "convert \<lparr>autofix = True, strict = True, nodoc = False\<rparr> example_python ''API'' ''api.wadl'' []
     (example_wadl ''200'' [Some ''not json'']) =
     Inr (example_swagger
       [(KInt 200, JDict [(KStr ''description'', JStr ''200 response''),
                          (KStr ''examples'', JDict [])])]) \<and>
   convert \<lparr>autofix = False, strict = False, nodoc = False\<rparr> example_python ''API'' ''api.wadl'' []
     (example_wadl ''200'' [Some ''not json'']) =
     Inr (example_swagger
       [(KInt 200, JDict [(KStr ''description'', JStr ''200 response''),
                          (KStr ''examples'', JDict [])])]) \<and>
   convert \<lparr>autofix = False, strict = True, nodoc = False\<rparr> example_python ''API'' ''api.wadl'' []
     (example_wadl ''200'' [Some ''not json'']) =
     Inl (WADLParseError ''Unparsable code sample'' ''api.wadl'' ''List servers''
            (ValueError ''not json''))"
  by code_simp

text \<open>
  With autofix on, a sample that \<^verbatim>\<open>json.loads\<close> rejects is cut at the last line start that
  is followed by \<^verbatim>\<open>{\<close> or \<^verbatim>\<open>[\<close>: the text \<open>g\<close> that \<^verbatim>\<open>fix_json\<close> goes on with is a suffix
  of the sample, it starts at the beginning of the sample or after a newline, its first
  character is \<^verbatim>\<open>{\<close> or \<^verbatim>\<open>[\<close>, and no later line of it starts with one of the two
  (\<open>header_match_last_line_start\<close> is the converse). When \<^verbatim>\<open>json.loads\<close> accepts \<open>g\<close>,
  \<^verbatim>\<open>fix_json\<close> returns it and the response of every status code gets its pretty-printed
  form under \<^verbatim>\<open>examples["application/json"]\<close>.
\<close>

lemma fix_json_strips_headers:
  assumes "autofix opts" and "loads py s = None"
    and "header_match True s = Some g" and "loads py g = Some d"
    and "code_samples r \<noteq> []" and "last (code_samples r) = Some s"
    and "status_attr r = Some st" and "py_int py status = Some code"
  shows "fix_json opts py s = Inr g \<and>
    (\<exists>pre c cs. s = pre @ g \<and> g = c # cs \<and> (pre = [] \<or> last pre = CHR 0x0A) \<and>
       (c = CHR ''{'' \<or> c = CHR ''['') \<and> header_match False cs = None) \<and>
    (\<exists>responses'.
       convert_status opts py wadl_file summary r responses status = Inr responses' \<and>
       lookup_path (JDict responses') [KInt code, KStr ''examples'', KStr ''application/json''] =
         Some (JStr (dumps py d)))"
proof -
  have f: "fix_json opts py s = Inr g"
    using assms(1-4) by (rule fix_json_recovered)
  from header_match_Some[OF assms(3)] obtain pre c cs where
    p: "s = pre @ g" "g = c # cs" "if pre = [] then True else last pre = CHR 0x0A"
       "c = CHR ''{'' \<or> c = CHR ''[''" "header_match False cs = None"
    by blast
  then have shape: "\<exists>pre c cs. s = pre @ g \<and> g = c # cs \<and> (pre = [] \<or> last pre = CHR 0x0A) \<and>
       (c = CHR ''{'' \<or> c = CHR ''['') \<and> header_match False cs = None"
    by (intro exI[of _ pre] exI[of _ c] exI[of _ cs]) (auto split: if_splits)
  from p(2) have ne: "g \<noteq> []" by simp
  note st = convert_status_attach[OF assms(8,7,5,6) f ne, of wadl_file summary responses]
  have "lookup_path (JDict (dict_set responses (KInt code)
       (JDict [(KStr ''description'',
                JStr (case doc_text r of None \<Rightarrow> st @ '' response'' | Some text \<Rightarrow> join '' '' (py_split py text))),
               (KStr ''examples'', JDict (build_code_sample py g))])))
        [KInt code, KStr ''examples'', KStr ''application/json''] = Some (JStr (dumps py d))"
    using assms(4) by (simp add: map_of_dict_set build_code_sample_def)
  with st f shape show ?thesis by simp
qed

lemma fix_json_strips_headers_example:
  \<open>autofix \<lparr>autofix = True, strict = False, nodoc = False\<rparr> \<and>
   loads example_python ''X-Auth: abc\<newline>{"id":1}'' = None \<and>
   header_match True ''X-Auth: abc\<newline>{"id":1}'' = Some ''{"id":1}'' \<and>
   loads example_python ''{"id":1}'' = Some (JDict [(KStr ''id'', JInt 1)]) \<and>
   fix_json \<lparr>autofix = True, strict = False, nodoc = False\<rparr> example_python
     ''X-Auth: abc\<newline>{"id":1}'' = Inr ''{"id":1}'' \<and>
   (\<exists>responses'.
      convert_status \<lparr>autofix = True, strict = False, nodoc = False\<rparr> example_python ''api.wadl''
        ''List servers''
        \<lparr>status_attr = Some ''200'', doc_text = None, json_media_type = Some ''application/json'',
         code_samples = [Some ''X-Auth: abc\<newline>{"id":1}'']\<rparr> [] ''200'' = Inr responses' \<and>
      lookup_path (JDict responses') [KInt 200, KStr ''examples'', KStr ''application/json''] =
        Some (JStr (dumps example_python (JDict [(KStr ''id'', JInt 1)]))))\<close>
proof -
  let ?opts = "\<lparr>autofix = True, strict = False, nodoc = False\<rparr>"
  let ?r = \<open>\<lparr>status_attr = Some ''200'', doc_text = None, json_media_type = Some ''application/json'',
         code_samples = [Some ''X-Auth: abc\<newline>{"id":1}'']\<rparr>\<close>
  have a: "autofix ?opts" by simp
  have l: \<open>loads example_python ''X-Auth: abc\<newline>{"id":1}'' = None\<close> by code_simp
  have h: \<open>header_match True ''X-Auth: abc\<newline>{"id":1}'' = Some ''{"id":1}''\<close> by code_simp
  have g: \<open>loads example_python ''{"id":1}'' = Some (JDict [(KStr ''id'', JInt 1)])\<close> by code_simp
  have c: "code_samples ?r \<noteq> []" by simp
  have t: \<open>last (code_samples ?r) = Some ''X-Auth: abc\<newline>{"id":1}''\<close> by simp
  have s: "status_attr ?r = Some ''200''" by simp
  have i: "py_int example_python ''200'' = Some 200" by code_simp
  from fix_json_strips_headers[OF a l h g c t s i, of "''api.wadl''" "''List servers''" "[]"] a l h g
  show ?thesis by blast
qed

text \<open>
  Claim C6. Under autofix, a JSON sample that has header text before it is to be recovered:
  the header is stripped, the JSON is parsed, and the example is attached under
  \<^verbatim>\<open>examples["application/json"]\<close>. The code does so for the sample
  \<^verbatim>\<open>X-Auth: abc\<close>, newline, \<^verbatim>\<open>{"id":1}\<close>, whose JSON is on one line. It does not when the
  JSON runs over several lines: the leading \<^verbatim>\<open>.*\<close> of the pattern is greedy, so the sample is
  cut at the last line start followed by \<^verbatim>\<open>{\<close> or \<^verbatim>\<open>[\<close>, which lies inside the JSON. For
  the header \<^verbatim>\<open>X-Auth: abc\<close> before a list written on three lines, which \<^verbatim>\<open>json.loads\<close>
  accepts on its own, \<^verbatim>\<open>fix_json\<close> goes on with the last two lines and raises on them;
  the response gets an empty \<^verbatim>\<open>examples\<close> mapping, and with strict on the conversion is
  given up.
\<close>

theorem fix_json_takes_last_line_start:
  \<open>convert \<lparr>autofix = True, strict = False, nodoc = False\<rparr> example_python ''API'' ''api.wadl'' []
     (example_wadl ''200'' [Some ''X-Auth: abc\<newline>{"id":1}'']) =
     Inr (example_swagger
       [(KInt 200, JDict [(KStr ''description'', JStr ''200 response''),
                          (KStr ''examples'',
                           JDict [(KStr ''application/json'', JStr ''{\<newline>    "id": 1\<newline>}'')])])]) \<and>
   loads example_python ''[\<newline>{"id":1}\<newline>]'' = Some (JList [JDict [(KStr ''id'', JInt 1)]]) \<and>
   header_match True ''X-Auth: abc\<newline>[\<newline>{"id":1}\<newline>]'' = Some ''{"id":1}\<newline>]'' \<and>
   fix_json \<lparr>autofix = True, strict = False, nodoc = False\<rparr> example_python
     ''X-Auth: abc\<newline>[\<newline>{"id":1}\<newline>]'' = Inl (ValueError ''{"id":1}\<newline>]'') \<and>
   convert \<lparr>autofix = True, strict = False, nodoc = False\<rparr> example_python ''API'' ''api.wadl'' []
     (example_wadl ''200'' [Some ''X-Auth: abc\<newline>[\<newline>{"id":1}\<newline>]'']) =
     Inr (example_swagger
       [(KInt 200, JDict [(KStr ''description'', JStr ''200 response''),
                          (KStr ''examples'', JDict [])])]) \<and>
   convert \<lparr>autofix = True, strict = True, nodoc = False\<rparr> example_python ''API'' ''api.wadl'' []
     (example_wadl ''200'' [Some ''X-Auth: abc\<newline>[\<newline>{"id":1}\<newline>]'']) =
     Inl (WADLParseError ''Unparsable code sample'' ''api.wadl'' ''List servers''
            (ValueError ''{"id":1}\<newline>]''))\<close>
  by code_simp

text \<open>
  Claim C8, as the code has it. Every status code of the list gets a response whose
  description is the text of the response documentation with its whitespace normalised, or,
  when the documentation is unusable, the whole status attribute followed by
  \<^verbatim>\<open>response\<close>: the same description for every code of the list.
\<close>

theorem convert_statuses_description:
  assumes "status_attr r = Some st"
    and "convert_statuses opts py wadl_file summary r [] (py_split py st) = Inr responses"
    and "t \<in> set (py_split py st)"
  shows "\<exists>code resp. py_int py t = Some code \<and>
           map_of responses (KInt code) = Some (JDict resp) \<and>
           map_of resp (KStr ''description'') =
             Some (JStr (case doc_text r of
                           None \<Rightarrow> st @ '' response''
                         | Some text \<Rightarrow> join '' '' (py_split py text)))"
proof -
  from convert_statuses_description_gen[OF assms(2,1)] assms(3) obtain code where
    "py_int py t = Some code"
    "has_description responses code
       (case doc_text r of None \<Rightarrow> st @ '' response'' | Some text \<Rightarrow> join '' '' (py_split py text))"
    by blast
  then show ?thesis
    by (auto simp: has_description_def split: option.splits json.splits)
qed

theorem convert_statuses_description_witness:
  "status_attr \<lparr>status_attr = Some ''200 404'', doc_text = Some ''  The  list. '',
       json_media_type = None, code_samples = []\<rparr> = Some ''200 404'' \<and>
   convert_statuses \<lparr>autofix = False, strict = False, nodoc = False\<rparr> example_python ''api.wadl''
     ''List servers''
     \<lparr>status_attr = Some ''200 404'', doc_text = Some ''  The  list. '',
      json_media_type = None, code_samples = []\<rparr> [] (py_split example_python ''200 404'') =
     Inr [(KInt 200, JDict [(KStr ''description'', JStr ''The list.'')]),
          (KInt 404, JDict [(KStr ''description'', JStr ''The list.'')])] \<and>
   ''404'' \<in> set (py_split example_python ''200 404'') \<and>
   (\<exists>code resp. py_int example_python ''404'' = Some code \<and>
      map_of [(KInt 200, JDict [(KStr ''description'', JStr ''The list.'')]),
              (KInt 404, JDict [(KStr ''description'', JStr ''The list.'')])] (KInt code) =
        Some (JDict resp) \<and>
      map_of resp (KStr ''description'') = Some (JStr ''The list.''))"
proof -
  let ?r = "\<lparr>status_attr = Some ''200 404'', doc_text = Some ''  The  list. '',
       json_media_type = None, code_samples = []\<rparr>"
  have s: "status_attr ?r = Some ''200 404''" by simp
  have c: "convert_statuses \<lparr>autofix = False, strict = False, nodoc = False\<rparr> example_python ''api.wadl''
     ''List servers'' ?r [] (py_split example_python ''200 404'') =
     Inr [(KInt 200, JDict [(KStr ''description'', JStr ''The list.'')]),
          (KInt 404, JDict [(KStr ''description'', JStr ''The list.'')])]"
    by code_simp
  have m: "''404'' \<in> set (py_split example_python ''200 404'')" by code_simp
  have d: "(case doc_text ?r of None \<Rightarrow> ''200 404'' @ '' response''
            | Some text \<Rightarrow> join '' '' (py_split example_python text)) = ''The list.''"
    by code_simp
  from convert_statuses_description[OF s c m] s c m show ?thesis
    unfolding d by blast
qed

theorem convert_fallback_description:
  "convert \<lparr>autofix = False, strict = False, nodoc = False\<rparr> example_python ''API'' ''api.wadl'' []
     (example_wadl ''200 404'' []) =
   Inr (example_swagger
     [(KInt 200, JDict [(KStr ''description'', JStr ''200 404 response'')]),
      (KInt 404, JDict [(KStr ''description'', JStr ''200 404 response'')])])"
  by code_simp

subsection \<open>The claim about the seeded media types\<close>

lemma seed_media_types_without_produces:
  assumes "map_of defaults (KStr ''produces'') = None"
  shows "map_of (seed_media_types defaults swagger) (KStr ''consumes'') =
           Some (JList [JStr ''application/json''])"
    and "map_of (seed_media_types defaults swagger) (KStr ''produces'') =
           Some (JList [JStr ''application/json''])"
  using assms
  by (auto simp: seed_media_types_def json_media_types_def map_of_dict_set Let_def
        split: option.splits)

lemma seed_media_types_both:
  assumes "map_of defaults (KStr ''consumes'') = Some c"
    and "map_of defaults (KStr ''produces'') = Some p"
  shows "map_of (seed_media_types defaults swagger) (KStr ''consumes'') = Some c"
    and "map_of (seed_media_types defaults swagger) (KStr ''produces'') = Some p"
  using assms
  by (auto simp: seed_media_types_def map_of_dict_set Let_def)

lemma convert_consumes_only_fails:
  assumes "wf_dict defaults"
    and "map_of defaults (KStr ''consumes'') = Some c"
    and "map_of defaults (KStr ''produces'') = None"
    and "\<not> py_eq (JList [JStr ''application/json'']) c"
  shows "\<exists>e. convert opts py title wadl_file defaults wadl = Inl e"
proof -
  define wadl1 where "wadl1 = (if autofix opts \<and> resource_base wadl = None
                  then wadl\<lparr>resource_base := Some ''http://localhost''\<rparr> else wadl)"
  show ?thesis
  proof (cases "convert_resources opts py wadl_file [] (resources wadl1)")
    case (Inl e)
    then show ?thesis by (simp add: convert_def Let_def wadl1_def)
  next
    case (Inr paths)
    define swagger where "swagger = dict_set (seed_media_types defaults (seed_info title defaults
       [(KStr ''swagger'', JStr ''2.0''), (KStr ''info'', JDict [])])) (KStr ''paths'') (JDict paths)"
    have "map_of swagger (KStr ''consumes'') = Some (JList [JStr ''application/json''])"
      by (simp add: swagger_def map_of_dict_set seed_media_types_without_produces[OF assms(3)])
    with assms(2,4) have "conflict_at swagger defaults [KStr ''consumes'']"
      by (simp add: conflict_at_def)
    from merge_dicts_conflict_complete[OF assms(1) this, of "[]"]
    obtain a e where "merge_dicts swagger defaults [] = (a, Some e)"
      by (cases "merge_dicts swagger defaults []") auto
    with Inr show ?thesis
      by (simp add: convert_def Let_def wadl1_def swagger_def)
  qed
qed

text \<open>
  Claim C3. When the overlay defines both keys, both seeds are the overlay's
  (\<open>seed_media_types_both\<close>). When it defines \<^verbatim>\<open>consumes\<close> and not \<^verbatim>\<open>produces\<close>, the \<^verbatim>\<open>KeyError\<close>
  of the second assignment runs the handler, which sets both keys to
  \<^verbatim>\<open>["application/json"]\<close>: the seeded \<^verbatim>\<open>consumes\<close> is not the overlay's, and the merge at the
  end of \<^verbatim>\<open>convert\<close> then meets the two values and raises. For the overlay
  \<^verbatim>\<open>{consumes: ["application/xml"]}\<close>:
\<close>

theorem convert_consumes_without_produces:
  "map_of (seed_media_types [(KStr ''consumes'', JList [JStr ''application/xml''])]
             [(KStr ''swagger'', JStr ''2.0''), (KStr ''info'', JDict [])]) (KStr ''consumes'') =
     Some (JList [JStr ''application/json'']) \<and>
   convert \<lparr>autofix = False, strict = False, nodoc = False\<rparr> example_python ''API'' ''api.wadl''
     [(KStr ''consumes'', JList [JStr ''application/xml''])] (example_wadl ''200'' []) =
     Inl (Conflict ''consumes'')"
  by code_simp

end
